theory Spec2Isabelle
  imports Complex_Main "HOL-Library.Word"
begin

unbundle bit_operations_syntax

section \<open>Constants of values.h\<close>

type_synonym u8 = "8 word"
type_synonym u16 = "16 word"

definition TXPACKET_MAX_LEN :: nat where "TXPACKET_MAX_LEN = 250"
definition RXPACKET_MAX_LEN :: nat where "RXPACKET_MAX_LEN = 250"


definition PKT_HEADER_0 :: nat where "PKT_HEADER_0 = 0"
definition PKT_HEADER_1 :: nat where "PKT_HEADER_1 = 1"
definition PKT_ID :: nat where "PKT_ID = 2"
definition PKT_LENGTH :: nat where "PKT_LENGTH = 3"
definition PKT_INSTRUCTION :: nat where "PKT_INSTRUCTION = 4"
definition PKT_ERROR :: nat where "PKT_ERROR = 4"
definition PKT_PARAMETER0 :: nat where "PKT_PARAMETER0 = 5"

definition BROADCAST_ID :: u8 where "BROADCAST_ID = 0xFE"

definition INST_PING :: u8 where "INST_PING = 1"
definition INST_READ :: u8 where "INST_READ = 2"

definition COMM_SUCCESS :: int where "COMM_SUCCESS = 0"
definition COMM_PORT_BUSY :: int where "COMM_PORT_BUSY = - 1"
definition COMM_TX_FAIL :: int where "COMM_TX_FAIL = - 2"
definition COMM_TX_ERROR :: int where "COMM_TX_ERROR = - 4"
definition COMM_RX_TIMEOUT :: int where "COMM_RX_TIMEOUT = - 6"
definition COMM_RX_CORRUPT :: int where "COMM_RX_CORRUPT = - 7"
definition COMM_NOT_AVAILABLE :: int where "COMM_NOT_AVAILABLE = - 9"

definition STS_MODEL_L :: u8 where "STS_MODEL_L = 3"

section \<open>The serial port (port\_handler.cpp)\<close>

text \<open>
  The port is the part of the world the packet engine talks to. Its state holds the
  fields of \<^verbatim>\<open>PortHandler\<close> the engine reads (\<^verbatim>\<open>serial_fd_ != -1\<close>, \<^verbatim>\<open>is_using_\<close>), the
  operating system's input queue, the bytes the \<^verbatim>\<open>write\<close> system call accepted so far, and
  two scripts that stand for what the engine cannot decide: the values successive
  \<^verbatim>\<open>write\<close> calls return, and, for every iteration of the receive loop, the bytes that
  have newly arrived on the line together with the answer \<^verbatim>\<open>isPacketTimeout\<close> would give
  in that iteration (the clock and the floating-point deadline are not modelled).
\<close>

record port =
  fd_open :: bool
  is_using :: bool
  rx_buffer :: "u8 list"
  tx_wire :: "u8 list"
  wr_results :: "int list"
  rx_events :: "(u8 list \<times> bool) list"

text \<open>
  What C++ leaves undefined or turns into an exception is a value of the model:
  an index beyond the end of a vector, the \<^verbatim>\<open>std::length_error\<close> of a vector constructed
  with a wrapped-around \<^verbatim>\<open>size_t\<close>, and the end of a script.
\<close>

datatype fault = Out_Of_Range | Length_Error | Script_End

definition clearPort :: "port \<Rightarrow> port" where
  "clearPort p = (if fd_open p then p\<lparr>rx_buffer := []\<rparr> else p)"

definition writePort :: "port \<Rightarrow> u8 list \<Rightarrow> fault + (nat \<times> port)" where
  "writePort p packet =
     (if \<not> fd_open p \<or> packet = [] then Inr (0, p)
      else case wr_results p of
             [] \<Rightarrow> Inl Script_End
           | bytes_written # ws \<Rightarrow>
               if bytes_written < 0 then Inr (0, p\<lparr>wr_results := ws\<rparr>)
               else Inr (nat bytes_written,
                         p\<lparr>wr_results := ws,
                           tx_wire := tx_wire p @ take (nat bytes_written) packet\<rparr>))"

definition readPort :: "port \<Rightarrow> nat \<Rightarrow> u8 list \<times> port" where
  "readPort p len =
     (if fd_open p \<and> 0 < len
      then (take len (rx_buffer p), p\<lparr>rx_buffer := drop len (rx_buffer p)\<rparr>)
      else ([], p))"

section \<open>The packet engine (protocol\_packet\_handler.cpp)\<close>

definition makeWord :: "u8 \<Rightarrow> u8 \<Rightarrow> u8 \<Rightarrow> u16" where
  "makeWord sts_end a b =
     (if sts_end = 0 then (ucast a AND 0xFF) OR push_bit 8 (ucast b AND 0xFF)
      else (ucast b AND 0xFF) OR push_bit 8 (ucast a AND 0xFF))"



text \<open>The checksum loops of \<^verbatim>\<open>txPacket\<close> and \<^verbatim>\<open>rxPacket\<close>:
  \<^verbatim>\<open>for (idx = 2; idx < n - 1; ++idx) checksum += packet[idx];\<close> on a \<^verbatim>\<open>uint8_t\<close>.\<close>

definition checksum_loop :: "u8 list \<Rightarrow> nat \<Rightarrow> u8" where
  "checksum_loop packet n = foldl (\<lambda>checksum idx. checksum + packet ! idx) 0 [2..<n - 1]"

definition txPacket :: "port \<Rightarrow> u8 list \<Rightarrow> fault + (int \<times> port \<times> u8 list)" where
  "txPacket p txpacket =
     (if length txpacket \<le> PKT_LENGTH then Inl Out_Of_Range
      else let total_packet_length = unat (txpacket ! PKT_LENGTH) + 4 in
        if is_using p then Inr (COMM_PORT_BUSY, p, txpacket)
        else let p1 = p\<lparr>is_using := True\<rparr> in
          if total_packet_length > TXPACKET_MAX_LEN
          then Inr (COMM_TX_ERROR, p1\<lparr>is_using := False\<rparr>, txpacket)
          else if length txpacket < total_packet_length then Inl Out_Of_Range
          else let txpacket1 = txpacket[PKT_HEADER_0 := 0xFF, PKT_HEADER_1 := 0xFF];
                   checksum = checksum_loop txpacket1 total_packet_length;
                   txpacket2 = txpacket1[total_packet_length - 1 := NOT checksum AND 0xFF]
               in case writePort (clearPort p1) txpacket2 of
                    Inl f \<Rightarrow> Inl f
                  | Inr (written_packet_length, p2) \<Rightarrow>
                      if total_packet_length \<noteq> written_packet_length
                      then Inr (COMM_TX_FAIL, p2\<lparr>is_using := False\<rparr>, txpacket2)
                      else Inr (COMM_SUCCESS, p2, txpacket2))"


text \<open>The header search of \<^verbatim>\<open>rxPacket\<close>:
  \<^verbatim>\<open>for (idx = 0; idx < rx_length - 1; ++idx) if (rxpacket[idx] == 0xFF && rxpacket[idx + 1] == 0xFF) break;\<close>\<close>

function findHeader :: "u8 list \<Rightarrow> nat \<Rightarrow> nat" where
  "findHeader rxpacket idx =
     (if idx < length rxpacket - 1
      then (if rxpacket ! idx = 0xFF \<and> rxpacket ! (idx + 1) = 0xFF then idx
            else findHeader rxpacket (idx + 1))
      else idx)"
  by pat_completeness auto
termination
  by (relation "measure (\<lambda>(rxpacket, idx). length rxpacket - 1 - idx)") auto

declare findHeader.simps [simp del]

text \<open>
  The \<^verbatim>\<open>while (true)\<close> loop of \<^verbatim>\<open>rxPacket\<close>, one script entry per iteration. The entry
  gives the bytes that reached the input queue since the previous iteration and whether
  the deadline has passed. \<^verbatim>\<open>wait_length - rx_length\<close> is a \<^verbatim>\<open>size_t\<close>: when
  \<^verbatim>\<open>rx_length\<close> is the larger it wraps around to more than a vector can hold, and
  \<^verbatim>\<open>readPort\<close> throws from its \<^verbatim>\<open>std::vector<uint8_t> buffer(length)\<close>.
  \<open>rxStep\<close> is the body of the loop: it ends the loop with a result (\<^verbatim>\<open>break\<close>),
  goes round again with a new buffer and \<^verbatim>\<open>wait_length\<close> (\<^verbatim>\<open>continue\<close> or the end of
  the body), or fails.
\<close>

datatype rx_step =
    Continue port "u8 list" nat
  | Break "u8 list" int port
  | Fault fault

definition rxStep :: "u8 list \<times> bool \<Rightarrow> port \<Rightarrow> u8 list \<Rightarrow> nat \<Rightarrow> rx_step" where
  "rxStep ev p rxpacket wait_length =
     (if wait_length < length rxpacket then Fault Length_Error
      else let (arrived, timed_out) = ev;
               (new_data, p1) = readPort (p\<lparr>rx_buffer := rx_buffer p @ arrived\<rparr>)
                                         (wait_length - length rxpacket);
               rxpacket1 = rxpacket @ new_data;
               rx_length = length rxpacket1
        in if rx_length \<ge> wait_length
           then let idx = findHeader rxpacket1 0
             in if idx = 0
                then if rx_length \<le> PKT_ERROR then Fault Out_Of_Range
                  else if unat (rxpacket1 ! PKT_ID) > 0xFD
                        \<or> unat (rxpacket1 ! PKT_LENGTH) > RXPACKET_MAX_LEN
                        \<or> unat (rxpacket1 ! PKT_ERROR) > 0x7F
                  then Continue p1 (tl rxpacket1) wait_length
                  else if wait_length \<noteq> unat (rxpacket1 ! PKT_LENGTH) + PKT_LENGTH + 1
                  then Continue p1 rxpacket1 (unat (rxpacket1 ! PKT_LENGTH) + PKT_LENGTH + 1)
                  else if rx_length < wait_length
                  then (if timed_out
                        then Break rxpacket1
                               (if rx_length = 0 then COMM_RX_TIMEOUT else COMM_RX_CORRUPT) p1
                        else Continue p1 rxpacket1 wait_length)
                  else let checksum = NOT (checksum_loop rxpacket1 wait_length) AND 0xFF
                    in Break rxpacket1
                         (if rxpacket1 ! (wait_length - 1) = checksum
                          then COMM_SUCCESS else COMM_RX_CORRUPT) p1
                else Continue p1 (drop idx rxpacket1) wait_length
           else if timed_out
             then Break rxpacket1
                    (if rx_length = 0 then COMM_RX_TIMEOUT else COMM_RX_CORRUPT) p1
             else Continue p1 rxpacket1 wait_length)"

fun rxLoop :: "(u8 list \<times> bool) list \<Rightarrow> port \<Rightarrow> u8 list \<Rightarrow> nat
    \<Rightarrow> fault + (u8 list \<times> int \<times> port \<times> (u8 list \<times> bool) list)" where
  "rxLoop [] p rxpacket wait_length = Inl Script_End"
| "rxLoop (ev # evs) p rxpacket wait_length =
     (case rxStep ev p rxpacket wait_length of
        Fault f \<Rightarrow> Inl f
      | Break rxpacket1 result p1 \<Rightarrow> Inr (rxpacket1, result, p1, evs)
      | Continue p1 rxpacket1 wait_length1 \<Rightarrow> rxLoop evs p1 rxpacket1 wait_length1)"

definition rxPacket :: "port \<Rightarrow> fault + (u8 list \<times> int \<times> port)" where
  "rxPacket p =
     (case rxLoop (rx_events p) p [] 6 of
        Inl f \<Rightarrow> Inl f
      | Inr (rxpacket, result, p1, evs) \<Rightarrow>
          Inr (rxpacket, result, p1\<lparr>rx_events := evs, is_using := False\<rparr>))"


text \<open>
  The state of the loop after a prefix of the script, when the loop is still running
  at its end: the same body, iterated. A \<^verbatim>\<open>break\<close> or a fault inside the prefix is
  passed on.
\<close>

fun rxIter :: "(u8 list \<times> bool) list \<Rightarrow> port \<Rightarrow> u8 list \<Rightarrow> nat \<Rightarrow> rx_step" where
  "rxIter [] p rxpacket wait_length = Continue p rxpacket wait_length"
| "rxIter (ev # evs) p rxpacket wait_length =
     (case rxStep ev p rxpacket wait_length of
        Continue p1 rxpacket1 wait_length1 \<Rightarrow> rxIter evs p1 rxpacket1 wait_length1
      | Break rxpacket1 result p1 \<Rightarrow> Break rxpacket1 result p1
      | Fault f \<Rightarrow> Fault f)"

text \<open>
  The number of bytes a call of \<^verbatim>\<open>rxPacket\<close> has taken from the line while the script
  entries \<open>evs\<close> went by: what was queued at the start or arrived since, less what is
  still queued.
\<close>

definition bytes_received :: "port \<Rightarrow> (u8 list \<times> bool) list \<Rightarrow> port \<Rightarrow> nat" where
  "bytes_received p evs p' =
     length (rx_buffer p) + length (concat (map fst evs)) - length (rx_buffer p')"

text \<open>
  A complete, structurally valid, correctly checksummed status packet: the envelope of
  the wire format, with the three header fields in the ranges \<^verbatim>\<open>rxPacket\<close> accepts.
\<close>

definition valid_status_packet :: "u8 list \<Rightarrow> bool" where
  "valid_status_packet pkt \<longleftrightarrow>
     6 \<le> length pkt \<and> length pkt = unat (pkt ! PKT_LENGTH) + 4 \<and>
     pkt ! PKT_HEADER_0 = 0xFF \<and> pkt ! PKT_HEADER_1 = 0xFF \<and>
     unat (pkt ! PKT_ID) \<le> 0xFD \<and> unat (pkt ! PKT_LENGTH) \<le> RXPACKET_MAX_LEN \<and>
     unat (pkt ! PKT_ERROR) \<le> 0x7F \<and>
     last pkt = NOT (sum_list (butlast (drop 2 pkt)))"

text \<open>
  Garbage that holds no false header: nowhere in it do five bytes stand that
  \<^verbatim>\<open>rxPacket\<close> would accept as the head of a packet, that is a sync pair \<open>0xFF 0xFF\<close>
  followed by an identifier of at most \<open>0xFD\<close>, a length of at most
  \<^verbatim>\<open>RXPACKET_MAX_LEN\<close> and an error byte of at most \<open>0x7F\<close>.
\<close>

fun no_false_header :: "u8 list \<Rightarrow> bool" where
  "no_false_header (a # b # c # d # e # xs) =
     (\<not> (a = 0xFF \<and> b = 0xFF \<and> unat c \<le> 0xFD \<and> unat d \<le> RXPACKET_MAX_LEN \<and> unat e \<le> 0x7F)
      \<and> no_false_header (b # c # d # e # xs))"
| "no_false_header _ = True"

text \<open>
  What holds at the head of every iteration of the loop while a stream \<open>garbage @ pkt\<close>
  is being received: the buffer, the input queue and the bytes still to arrive make up
  the packet behind what is left of the garbage, the buffer is shorter than the length
  waited for, and this length is the initial 6 unless the garbage is gone and the exact
  length of the packet is known. The measure bounds the iterations that cannot end in a
  \<^verbatim>\<open>break\<close>.
\<close>

definition resync_inv :: "u8 list \<Rightarrow> port \<Rightarrow> u8 list \<Rightarrow> nat \<Rightarrow> u8 list \<Rightarrow> u8 list \<Rightarrow> bool" where
  "resync_inv pkt p rxpacket wait_length future garbage \<longleftrightarrow>
     fd_open p \<and> rxpacket @ rx_buffer p @ future = garbage @ pkt \<and> no_false_header garbage \<and>
     length rxpacket < wait_length \<and>
     (wait_length = 6 \<or> (garbage = [] \<and> wait_length = length pkt))"

definition resync_measure :: "u8 list \<Rightarrow> u8 list \<Rightarrow> nat \<Rightarrow> nat" where
  "resync_measure pkt garbage wait_length =
     length garbage + (if wait_length = length pkt then 0 else 1)"

lemma rxLoop_consumes:
  "rxLoop evs p rxpacket wait_length = Inr (rxpacket', result, p', evs') \<Longrightarrow> length evs' < length evs"
proof (induction evs arbitrary: p rxpacket wait_length)
  case Nil
  then show ?case by simp
next
  case (Cons ev evs)
  show ?case
  proof (cases "rxStep ev p rxpacket wait_length")
    case (Continue p1 rxpacket1 wait_length1)
    with Cons.prems have "rxLoop evs p1 rxpacket1 wait_length1 = Inr (rxpacket', result, p', evs')"
      by simp
    from Cons.IH[OF this] show ?thesis by simp
  next
    case (Break rxpacket1 result1 p1)
    with Cons.prems show ?thesis by simp
  next
    case (Fault f)
    with Cons.prems show ?thesis by simp
  qed
qed

lemma rxPacket_consumes:
  "rxPacket p = Inr (rxpacket, result, p') \<Longrightarrow> length (rx_events p') < length (rx_events p)"
  by (auto simp: rxPacket_def split: sum.splits dest: rxLoop_consumes)

text \<open>The receive loop of \<^verbatim>\<open>txRxPacket\<close>: call \<^verbatim>\<open>rxPacket\<close> until it fails or the packet
  carries the identifier of the request.\<close>

function rxUntil :: "port \<Rightarrow> u8 \<Rightarrow> fault + (u8 list \<times> int \<times> port)" where
  "rxUntil p sts_id =
     (case rxPacket p of
        Inl f \<Rightarrow> Inl f
      | Inr (rxpacket, result, p1) \<Rightarrow>
          if result \<noteq> COMM_SUCCESS \<or> (length rxpacket > PKT_ID \<and> sts_id = rxpacket ! PKT_ID)
          then Inr (rxpacket, result, p1)
          else rxUntil p1 sts_id)"
  by pat_completeness auto
termination
  by (relation "measure (\<lambda>(p, sts_id). length (rx_events p))") (auto dest: rxPacket_consumes)

declare rxUntil.simps [simp del]

text \<open>\<^verbatim>\<open>setPacketTimeout\<close> only stores the clock and a floating-point deadline, which the
  script of the port stands for: it is no step of the model. The read of
  \<^verbatim>\<open>txpacket[PKT_PARAMETER0 + 1]\<close> that computes its argument is kept, with its range.\<close>

definition txRxPacket :: "port \<Rightarrow> u8 list \<Rightarrow> fault + (u8 list \<times> int \<times> u8 \<times> port)" where
  "txRxPacket p txpacket =
     (case txPacket p txpacket of
        Inl f \<Rightarrow> Inl f
      | Inr (result, p1, txpacket1) \<Rightarrow>
          if result \<noteq> COMM_SUCCESS then Inr ([], result, 0, p1)
          else if txpacket1 ! PKT_ID = BROADCAST_ID
          then Inr ([], result, 0, p1\<lparr>is_using := False\<rparr>)
          else if length txpacket1 \<le> PKT_INSTRUCTION then Inl Out_Of_Range
          else if txpacket1 ! PKT_INSTRUCTION = INST_READ \<and> length txpacket1 \<le> PKT_PARAMETER0 + 1
          then Inl Out_Of_Range
          else case rxUntil p1 (txpacket1 ! PKT_ID) of
                 Inl f \<Rightarrow> Inl f
               | Inr (rxpacket, result1, p2) \<Rightarrow>
                   Inr (rxpacket, result1,
                        if result1 = COMM_SUCCESS \<and> length rxpacket > PKT_ERROR
                           \<and> txpacket1 ! PKT_ID = rxpacket ! PKT_ID
                        then rxpacket ! PKT_ERROR else 0,
                        p2))"

definition readTxRx :: "port \<Rightarrow> u8 \<Rightarrow> u8 \<Rightarrow> u8 \<Rightarrow> fault + (u8 list \<times> int \<times> u8 \<times> port)" where
  "readTxRx p sts_id address len =
     (if sts_id \<ge> BROADCAST_ID then Inr ([], COMM_NOT_AVAILABLE, 0, p)
      else let txpacket = (replicate 8 0)
                 [PKT_ID := sts_id, PKT_LENGTH := 4, PKT_INSTRUCTION := INST_READ,
                  PKT_PARAMETER0 + 0 := address, PKT_PARAMETER0 + 1 := len]
        in case txRxPacket p txpacket of
             Inl f \<Rightarrow> Inl f
           | Inr (rxpacket, result, error, p1) \<Rightarrow>
               if result = COMM_SUCCESS \<and> length rxpacket \<ge> PKT_PARAMETER0 + unat len
               then Inr (take (unat len) (drop PKT_PARAMETER0 rxpacket), result,
                         rxpacket ! PKT_ERROR, p1)
               else Inr ([], result, error, p1))"

definition ping :: "port \<Rightarrow> u8 \<Rightarrow> u8 \<Rightarrow> fault + (u16 \<times> int \<times> u8 \<times> port)" where
  "ping p sts_end sts_id =
     (if sts_id \<ge> BROADCAST_ID then Inr (0, COMM_NOT_AVAILABLE, 0, p)
      else let txpacket = (replicate 6 0)
                 [PKT_ID := sts_id, PKT_LENGTH := 2, PKT_INSTRUCTION := INST_PING]
        in case txRxPacket p txpacket of
             Inl f \<Rightarrow> Inl f
           | Inr (rxpacket, result, error, p1) \<Rightarrow>
               if result = COMM_SUCCESS
               then case readTxRx p1 sts_id 3 2 of
                      Inl f \<Rightarrow> Inl f
                    | Inr (data, result1, error1, p2) \<Rightarrow>
                        Inr (if result1 = COMM_SUCCESS \<and> length data \<ge> 2
                             then makeWord sts_end (data ! 0) (data ! 1) else 0,
                             result1, error1, p2)
               else Inr (0, result, error, p1))"



section \<open>The servo (st3215.cpp)\<close>

definition pingServo :: "port \<Rightarrow> u8 \<Rightarrow> u8 \<Rightarrow> fault + (bool \<times> port)" where
  "pingServo p sts_end sts_id =
     (case ping p sts_end sts_id of
        Inl f \<Rightarrow> Inl f
      | Inr (model, comm, error, p1) \<Rightarrow>
          if comm \<noteq> COMM_SUCCESS \<or> model = 0 \<or> error \<noteq> 0 then Inr (False, p1)
          else Inr (True, p1))"








text \<open>
  The wait of \<^verbatim>\<open>moveTo\<close> (the block under \<^verbatim>\<open>if (wait && curr_pos.has_value())\<close>), with the
  \<^verbatim>\<open>double\<close>s of the source read as real numbers. The result is the argument of
  \<^verbatim>\<open>sleep_for\<close>, in seconds. Rounding is not modelled, so the definition stands for the
  source only where the operations of the source are exact or the rounding does not
  decide the branch. It does not at a tie: for position 529 from 0 at speed 460 and
  \<^verbatim>\<open>acc\<close> 2, \<open>distance_acc\<close> is 529 in the reals and the first branch gives 23
  seconds, while the rounded \<^verbatim>\<open>time_to_speed\<close> 2.3 puts \<^verbatim>\<open>distance_acc\<close> just under
  529 in the source, which takes the second branch and sleeps 2.3 seconds. A zero
  \<^verbatim>\<open>acc\<close> or \<^verbatim>\<open>speed\<close>, an infinity or a NaN in C++, is outside the definition as well.
\<close>

definition moveTo_distance :: "u16 \<Rightarrow> u16 \<Rightarrow> real" where
  "moveTo_distance position curr_pos =
     real (unat (word_of_int \<bar>int (unat position) - int (unat curr_pos)\<bar> :: u16))"

definition moveTo_time_wait :: "u16 \<Rightarrow> u16 \<Rightarrow> u16 \<Rightarrow> u8 \<Rightarrow> real" where
  "moveTo_time_wait position curr_pos speed acc =
     (let distance = moveTo_distance position curr_pos;
          time_to_speed = real (unat speed) / (real (unat acc) * 100);
          distance_acc = 0.5 * (real (unat acc) * 100) * time_to_speed * time_to_speed
      in if distance_acc \<ge> distance
         then sqrt (2 * distance / real (unat acc))
         else let remain_distance = distance - distance_acc
              in time_to_speed + remain_distance / real (unat speed))"

text \<open>
  The wait as the specification words it, for comparison: distance \<open>d\<close>, speed cap
  \<open>v\<close> and acceleration \<open>a\<close> already scaled to steps per second squared; \<open>t_acc = v/a\<close>,
  \<open>d_acc = 0.5 a t_acc t_acc\<close>; \<open>sqrt (2d/a)\<close> when \<open>d_acc \<ge> d\<close>, and
  \<open>t_acc + (d - d_acc)/v\<close> otherwise.
\<close>

definition spec_time_wait :: "real \<Rightarrow> real \<Rightarrow> real \<Rightarrow> real" where
  "spec_time_wait d v a =
     (let t_acc = v / a; d_acc = 0.5 * a * t_acc\<^sup>2
      in if d_acc \<ge> d then sqrt (2 * d / a) else t_acc + (d - d_acc) / v)"






section \<open>The sync-write session (group\_sync\_write.cpp)\<close>

record group_sync_write =
  start_address :: u8
  data_length :: u8
  is_param_changed :: bool
  param :: "u8 list"
  data_dict :: "u8 \<rightharpoonup> u8 list"

definition addParam :: "group_sync_write \<Rightarrow> u8 \<Rightarrow> u8 list \<Rightarrow> bool \<times> group_sync_write" where
  "addParam g sts_id data =
     (if data_dict g sts_id \<noteq> None then (False, g)
      else if length data > unat (data_length g) then (False, g)
      else (True, g\<lparr>data_dict := (data_dict g)(sts_id \<mapsto> data), is_param_changed := True\<rparr>))"

section \<open>Names of the constants\<close>

lemmas pkt_defs = PKT_HEADER_0_def PKT_HEADER_1_def PKT_ID_def PKT_LENGTH_def
  PKT_INSTRUCTION_def PKT_ERROR_def PKT_PARAMETER0_def

lemmas comm_defs = COMM_SUCCESS_def COMM_PORT_BUSY_def COMM_TX_FAIL_def COMM_TX_ERROR_def
  COMM_RX_TIMEOUT_def COMM_RX_CORRUPT_def COMM_NOT_AVAILABLE_def

section \<open>Bytes and checksums\<close>

lemma and_255_u8: "(w :: u8) AND 255 = w"
proof -
  have "(255 :: u8) = - 1" by simp
  thus ?thesis by (simp only: and.right_neutral word_and_max)
qed

lemma foldl_add_nth:
  "foldl (\<lambda>c i. c + (xs ! i :: u8)) a is = a + sum_list (map ((!) xs) is)"
  by (induction "is" arbitrary: a) (simp_all add: add.assoc)

lemma map_nth_slice: "b \<le> length xs \<Longrightarrow> map ((!) xs) [a..<b] = take (b - a) (drop a xs)"
  by (rule nth_equalityI) auto

lemma checksum_loop_slice:
  assumes "n \<le> length packet"
  shows "checksum_loop packet n = sum_list (take (n - 3) (drop 2 packet))"
proof -
  have "map ((!) packet) [2..<n - 1] = take (n - 1 - 2) (drop 2 packet)"
    using assms by (intro map_nth_slice) simp
  moreover have "n - 1 - 2 = n - 3" by simp
  ultimately show ?thesis by (simp only: checksum_loop_def foldl_add_nth add_0)
qed

section \<open>Transmission\<close>

lemma txPacket_success:
  assumes "txPacket p txpacket = Inr (COMM_SUCCESS, p', txpacket')"
  defines "n \<equiv> unat (txpacket ! PKT_LENGTH) + 4"
  shows "n \<le> length txpacket \<and> n \<le> TXPACKET_MAX_LEN \<and> \<not> is_using p \<and>
     txpacket' = (txpacket[0 := 0xFF, 1 := 0xFF])
                   [n - 1 := NOT (checksum_loop (txpacket[0 := 0xFF, 1 := 0xFF]) n)] \<and>
     tx_wire p' = tx_wire p @ take n txpacket'"
  using assms
  by (auto simp: txPacket_def Let_def writePort_def clearPort_def comm_defs pkt_defs and_255_u8
      split: if_splits sum.splits list.splits prod.splits)

text \<open>On an open, free port whose \<^verbatim>\<open>write\<close> accepts the whole packet, a packet that
  fits is transmitted.\<close>

lemma txPacket_succeeds:
  assumes "\<not> is_using p" and "fd_open p"
    and "n = unat (txpacket ! PKT_LENGTH) + 4"
    and "n \<le> TXPACKET_MAX_LEN" and "n \<le> length txpacket"
    and "wr_results p = int n # ws"
  shows "\<exists>p' txpacket'. txPacket p txpacket = Inr (COMM_SUCCESS, p', txpacket')"
proof -
  have n4: "4 \<le> n" using assms(3) by simp
  hence ne: "txpacket \<noteq> []" using assms(5) by auto
  show ?thesis
    using assms(1,2,4,5,6) n4 ne unfolding txPacket_def assms(3)[symmetric] Let_def
    by (auto simp: writePort_def clearPort_def PKT_LENGTH_def)
qed

text \<open>
  C1. Whenever \<^verbatim>\<open>txPacket\<close> reports success, the bytes it put on the line are the first
  \<open>length field + 4\<close> bytes of the packet, no more than the maximum packet size; they
  begin with the two sync bytes \<open>0xFF 0xFF\<close>, carry the caller's bytes from the address
  byte through the last parameter byte unchanged, and end with the complement of the
  8-bit sum of exactly these bytes.
\<close>

theorem txPacket_wire_format:
  assumes "txPacket p txpacket = Inr (COMM_SUCCESS, p', txpacket')"
  defines "n \<equiv> unat (txpacket ! PKT_LENGTH) + 4"
  defines "sent \<equiv> take n txpacket'"
  shows "n \<le> TXPACKET_MAX_LEN \<and> tx_wire p' = tx_wire p @ sent \<and> length sent = n \<and>
         sent ! 0 = 0xFF \<and> sent ! 1 = 0xFF \<and>
         (\<forall>i. 2 \<le> i \<and> i < n - 1 \<longrightarrow> sent ! i = txpacket ! i) \<and>
         last sent = NOT (sum_list (butlast (drop 2 sent)))"
proof -
  define t1 where "t1 = txpacket[0 := 0xFF, 1 := 0xFF]"
  from txPacket_success[OF assms(1)]
  have len: "n \<le> length txpacket" and mx: "n \<le> TXPACKET_MAX_LEN"
    and tx': "txpacket' = t1[n - 1 := NOT (checksum_loop t1 n)]"
    and wire: "tx_wire p' = tx_wire p @ sent"
    by (simp_all add: n_def sent_def t1_def)
  have n4: "4 \<le> n" by (simp add: n_def)
  have lt1: "length t1 = length txpacket" by (simp add: t1_def)
  have ls: "length sent = n" using len by (simp add: sent_def tx' lt1)
  have pos: "0 < length txpacket" "1 < length txpacket" "0 < n" "1 < n" "n - 1 \<noteq> 0" "n - 1 \<noteq> 1"
    using n4 len by auto
  have s0: "sent ! 0 = 0xFF" "sent ! 1 = 0xFF"
    using pos by (simp_all add: sent_def tx' t1_def nth_list_update)
  have mid: "\<forall>i. 2 \<le> i \<and> i < n - 1 \<longrightarrow> sent ! i = txpacket ! i"
  proof (intro allI impI)
    fix i assume i: "2 \<le> i \<and> i < n - 1"
    hence "i < n" "i \<noteq> n - 1" "i \<noteq> 0" "i \<noteq> 1" by auto
    thus "sent ! i = txpacket ! i" by (simp add: sent_def tx' t1_def)
  qed
  have slice: "butlast (drop 2 sent) = take (n - 3) (drop 2 t1)"
  proof (rule nth_equalityI)
    show "length (butlast (drop 2 sent)) = length (take (n - 3) (drop 2 t1))"
      using n4 len lt1 ls by simp
  next
    fix i assume "i < length (butlast (drop 2 sent))"
    hence i: "i < n - 3" using ls by simp
    hence "butlast (drop 2 sent) ! i = sent ! (2 + i)"
      using ls by (simp add: nth_butlast)
    also have "\<dots> = t1 ! (2 + i)"
      using i by (simp add: sent_def tx')
    also have "\<dots> = take (n - 3) (drop 2 t1) ! i"
      using i len lt1 by simp
    finally show "butlast (drop 2 sent) ! i = take (n - 3) (drop 2 t1) ! i" .
  qed
  have "last sent = sent ! (n - 1)"
    using ls n4 by (metis last_conv_nth length_0_conv not_numeral_le_zero)
  also have "\<dots> = NOT (checksum_loop t1 n)"
    using n4 len lt1 by (simp add: sent_def tx')
  also have "\<dots> = NOT (sum_list (butlast (drop 2 sent)))"
    using len lt1 by (simp add: checksum_loop_slice slice)
  finally show ?thesis using mx wire ls s0 mid by simp
qed

theorem txPacket_wire_format_witness:
  "txPacket \<lparr>fd_open = True, is_using = False, rx_buffer = [], tx_wire = [],
             wr_results = [6], rx_events = []\<rparr> [0, 0, 1, 2, 1, 0]
     = Inr (COMM_SUCCESS,
            \<lparr>fd_open = True, is_using = True, rx_buffer = [], tx_wire = [0xFF, 0xFF, 1, 2, 1, 0xFB],
             wr_results = [], rx_events = []\<rparr>,
            [0xFF, 0xFF, 1, 2, 1, 0xFB])
   \<and> last [0xFF, 0xFF, 1, 2, 1, 0xFB :: u8] = NOT (sum_list (butlast (drop 2 [0xFF, 0xFF, 1, 2, 1, 0xFB])))"
proof -
  have h: "txPacket \<lparr>fd_open = True, is_using = False, rx_buffer = [], tx_wire = [],
             wr_results = [6], rx_events = []\<rparr> [0, 0, 1, 2, 1, 0]
     = Inr (COMM_SUCCESS,
            \<lparr>fd_open = True, is_using = True, rx_buffer = [], tx_wire = [0xFF, 0xFF, 1, 2, 1, 0xFB],
             wr_results = [], rx_events = []\<rparr>,
            [0xFF, 0xFF, 1, 2, 1, 0xFB])"
    by code_simp
  from txPacket_wire_format[OF h] show ?thesis using h by (simp add: pkt_defs)
qed

lemma txPacket_busy:
  "PKT_LENGTH < length txpacket \<Longrightarrow> is_using p
     \<Longrightarrow> txPacket p txpacket = Inr (COMM_PORT_BUSY, p, txpacket)"
  by (simp add: txPacket_def Let_def)

lemma writePort_short:
  assumes "\<not> fd_open p \<or> (\<exists>w ws. wr_results p = w # ws \<and> w < int n)" and "0 < n"
  shows "\<exists>k p'. writePort p packet = Inr (k, p') \<and> k \<noteq> n"
  using assms by (auto simp: writePort_def split: list.splits)

lemma txPacket_short_write:
  assumes "\<not> is_using p" "n \<le> TXPACKET_MAX_LEN" "n \<le> length txpacket"
    and "n = unat (txpacket ! PKT_LENGTH) + 4"
    and "\<not> fd_open p \<or> (\<exists>w ws. wr_results p = w # ws \<and> w < int n)"
  shows "\<exists>p' txpacket'. txPacket p txpacket = Inr (COMM_TX_FAIL, p', txpacket') \<and> \<not> is_using p'"
proof -
  define q where "q = clearPort (p\<lparr>is_using := True\<rparr>)"
  define t where "t = (txpacket[PKT_HEADER_0 := 0xFF, PKT_HEADER_1 := 0xFF])
      [n - 1 := NOT (checksum_loop (txpacket[PKT_HEADER_0 := 0xFF, PKT_HEADER_1 := 0xFF]) n) AND 0xFF]"
  have n4: "4 \<le> n" using assms(4) by simp
  have "\<not> fd_open q \<or> (\<exists>w ws. wr_results q = w # ws \<and> w < int n)"
    using assms(5) by (auto simp: q_def clearPort_def)
  from writePort_short[OF this, of t] n4
  obtain k p' where w: "writePort q t = Inr (k, p')" "k \<noteq> n" using n4 by auto
  have "txPacket p txpacket = Inr (COMM_TX_FAIL, p'\<lparr>is_using := False\<rparr>, t)"
    using assms(1-3) w n4 unfolding txPacket_def assms(4)[symmetric] q_def[symmetric] Let_def t_def[symmetric]
    by (auto simp: PKT_LENGTH_def)
  thus ?thesis by auto
qed

text \<open>
  C4. A packet handed to \<^verbatim>\<open>txPacket\<close> while the busy flag is set is answered with
  port-busy and the port is left exactly as it was: nothing is written. When the flag is
  free, the declared length fits, and the write reports fewer bytes than the packet
  length (the port is closed, or the system call accepts fewer), \<^verbatim>\<open>txPacket\<close> answers
  transmit-failure and the busy flag is clear afterwards.
\<close>

theorem txPacket_fails_closed:
  fixes p :: port and txpacket :: "u8 list"
  defines "n \<equiv> unat (txpacket ! PKT_LENGTH) + 4"
  shows "(PKT_LENGTH < length txpacket \<and> is_using p
            \<longrightarrow> txPacket p txpacket = Inr (COMM_PORT_BUSY, p, txpacket))
       \<and> (\<not> is_using p \<and> n \<le> TXPACKET_MAX_LEN \<and> n \<le> length txpacket
            \<and> (\<not> fd_open p \<or> (\<exists>w ws. wr_results p = w # ws \<and> w < int n))
            \<longrightarrow> (\<exists>p' txpacket'. txPacket p txpacket = Inr (COMM_TX_FAIL, p', txpacket')
                    \<and> \<not> is_using p'))"
  using txPacket_busy[of txpacket p] txPacket_short_write[of p n txpacket]
  by (simp add: n_def)

theorem txPacket_fails_closed_witness:
  "txPacket \<lparr>fd_open = True, is_using = True, rx_buffer = [], tx_wire = [],
             wr_results = [6], rx_events = []\<rparr> [0, 0, 1, 2, 1, 0]
     = Inr (COMM_PORT_BUSY,
            \<lparr>fd_open = True, is_using = True, rx_buffer = [], tx_wire = [],
             wr_results = [6], rx_events = []\<rparr>, [0, 0, 1, 2, 1, 0])
   \<and> (\<exists>p' txpacket'.
         txPacket \<lparr>fd_open = True, is_using = False, rx_buffer = [], tx_wire = [],
                   wr_results = [3], rx_events = []\<rparr> [0, 0, 1, 2, 1, 0]
           = Inr (COMM_TX_FAIL, p', txpacket') \<and> \<not> is_using p')"
  using txPacket_fails_closed[of "[0, 0, 1, 2, 1, 0]"
          "\<lparr>fd_open = True, is_using = True, rx_buffer = [], tx_wire = [],
            wr_results = [6], rx_events = []\<rparr>"]
        txPacket_fails_closed[of "[0, 0, 1, 2, 1, 0]"
          "\<lparr>fd_open = True, is_using = False, rx_buffer = [], tx_wire = [],
            wr_results = [3], rx_events = []\<rparr>"]
  by (simp add: pkt_defs TXPACKET_MAX_LEN_def)

section \<open>The wait of moveTo\<close>

lemma sqrt_100: "sqrt 100 = 10"
  using real_sqrt_abs[of 10] by simp

text \<open>
  The real-number reading of the source and the specification's formula, side by side:
  they agree when the cruise speed is reached, and where it is not the source waits ten
  times as long, because its square root divides by the raw register value \<^verbatim>\<open>acc\<close>
  where every other line of the block uses \<^verbatim>\<open>acc * 100.0\<close>. This is a statement about
  the real-number reading only: it says nothing of the source where rounding decides
  the branch or where \<^verbatim>\<open>acc\<close> or \<^verbatim>\<open>speed\<close> is zero.
\<close>

lemma moveTo_time_wait_spec:
  fixes position curr_pos speed :: u16 and acc :: u8
  defines "d \<equiv> moveTo_distance position curr_pos"
  defines "v \<equiv> real (unat speed)"
  defines "a \<equiv> real (unat acc) * 100"
  shows "moveTo_time_wait position curr_pos speed acc =
           (if 0.5 * a * (v / a)\<^sup>2 \<ge> d then 10 * spec_time_wait d v a
            else spec_time_wait d v a)"
proof -
  have "sqrt (2 * d / real (unat acc)) = sqrt (100 * (2 * d / a))"
    by (simp add: a_def)
  also have "\<dots> = 10 * sqrt (2 * d / a)"
    by (simp only: real_sqrt_mult sqrt_100)
  finally have s: "sqrt (2 * d / real (unat acc)) = 10 * sqrt (2 * d / a)" .
  show ?thesis
    unfolding moveTo_time_wait_def spec_time_wait_def Let_def
      d_def[symmetric] v_def[symmetric] a_def[symmetric]
    using s by (simp add: power2_eq_square)
qed

text \<open>
  C6. The claim gives the wait \<open>sqrt (2 d / a)\<close>, with \<open>a\<close> the scaled acceleration,
  whenever \<open>d_acc \<ge> d\<close>. At speed 3400, acceleration register 1 (100 steps per second squared) and
  distance 50, where \<open>d_acc = 57800 \<ge> 50\<close>, the source sleeps 10 seconds; the formula
  of the claim gives 1 second. Every operation at this input is exact in IEEE
  arithmetic as well.
\<close>

theorem moveTo_triangular_wait_unscaled:
  "moveTo_time_wait 50 0 3400 1 = 10 \<and> spec_time_wait 50 3400 (1 * 100) = 1"
  by (simp add: moveTo_time_wait_def moveTo_distance_def spec_time_wait_def Let_def sqrt_100
      power2_eq_square)

section \<open>Taring\<close>





section \<open>Sync write\<close>

text \<open>
  C8. \<^verbatim>\<open>addParam\<close> with an address that is already in the session map, or with a payload
  longer than the session's data length, returns false and leaves the whole session,
  its map and every stored payload included, as it was.
\<close>

theorem addParam_rejects:
  "data_dict g sts_id \<noteq> None \<or> length data > unat (data_length g)
     \<Longrightarrow> addParam g sts_id data = (False, g)"
  by (auto simp: addParam_def)

theorem addParam_rejects_witness:
  "addParam \<lparr>start_address = 42, data_length = 2, is_param_changed = False, param = [],
             data_dict = [1 \<mapsto> [0, 8]]\<rparr> 1 [5, 6]
     = (False, \<lparr>start_address = 42, data_length = 2, is_param_changed = False, param = [],
                data_dict = [1 \<mapsto> [0, 8]]\<rparr>)
   \<and> addParam \<lparr>start_address = 42, data_length = 2, is_param_changed = False, param = [],
               data_dict = [1 \<mapsto> [0, 8]]\<rparr> 2 [5, 6, 7]
     = (False, \<lparr>start_address = 42, data_length = 2, is_param_changed = False, param = [],
                data_dict = [1 \<mapsto> [0, 8]]\<rparr>)"
  using addParam_rejects[of "\<lparr>start_address = 42, data_length = 2, is_param_changed = False,
            param = [], data_dict = [1 \<mapsto> [0, 8]]\<rparr>" 1 "[5, 6]"]
        addParam_rejects[of "\<lparr>start_address = 42, data_length = 2, is_param_changed = False,
            param = [], data_dict = [1 \<mapsto> [0, 8]]\<rparr>" 2 "[5, 6, 7]"]
  by simp

section \<open>Broadcast\<close>

lemma txPacket_port:
  "txPacket p txpacket = Inr (result, p', txpacket')
     \<Longrightarrow> rx_events p' = rx_events p \<and> fd_open p' = fd_open p"
  by (auto simp: txPacket_def Let_def writePort_def clearPort_def
      split: if_splits sum.splits list.splits prod.splits)

text \<open>
  C5. When the transmission of a packet addressed to the broadcast identifier 254
  succeeds, \<^verbatim>\<open>txRxPacket\<close> returns at once: the response is empty, the result is
  success, the device error byte is 0, the busy flag is released, and no reception is
  attempted (the script of arrivals and deadlines of the port is where it was).
\<close>

theorem txRxPacket_broadcast:
  assumes "txPacket p txpacket = Inr (COMM_SUCCESS, p1, txpacket1)"
      and "txpacket ! PKT_ID = BROADCAST_ID"
  shows "txRxPacket p txpacket = Inr ([], COMM_SUCCESS, 0, p1\<lparr>is_using := False\<rparr>)
       \<and> rx_events (p1\<lparr>is_using := False\<rparr>) = rx_events p
       \<and> \<not> is_using (p1\<lparr>is_using := False\<rparr>)"
proof -
  from txPacket_success[OF assms(1)]
  have t1: "txpacket1 = (txpacket[0 := 0xFF, 1 := 0xFF])
              [unat (txpacket ! PKT_LENGTH) + 4 - 1 :=
                 NOT (checksum_loop (txpacket[0 := 0xFF, 1 := 0xFF]) (unat (txpacket ! PKT_LENGTH) + 4))]"
    by simp
  have "txpacket1 ! PKT_ID = txpacket ! PKT_ID"
    unfolding t1 by (simp add: PKT_ID_def)
  hence "txpacket1 ! PKT_ID = BROADCAST_ID" using assms(2) by simp
  thus ?thesis using assms(1) txPacket_port[OF assms(1)]
    by (simp add: txRxPacket_def)
qed

theorem txRxPacket_broadcast_witness:
  "txRxPacket \<lparr>fd_open = True, is_using = False, rx_buffer = [7], tx_wire = [],
               wr_results = [6], rx_events = [([1, 2, 3], False)]\<rparr> [0, 0, 0xFE, 2, 1, 0]
     = Inr ([], COMM_SUCCESS, 0,
            \<lparr>fd_open = True, is_using = False, rx_buffer = [],
             tx_wire = [0xFF, 0xFF, 0xFE, 2, 1, 0xFE],
             wr_results = [], rx_events = [([1, 2, 3], False)]\<rparr>)"
proof -
  have h: "txPacket \<lparr>fd_open = True, is_using = False, rx_buffer = [7], tx_wire = [],
               wr_results = [6], rx_events = [([1, 2, 3], False)]\<rparr> [0, 0, 0xFE, 2, 1, 0]
     = Inr (COMM_SUCCESS,
            \<lparr>fd_open = True, is_using = True, rx_buffer = [],
             tx_wire = [0xFF, 0xFF, 0xFE, 2, 1, 0xFE],
             wr_results = [], rx_events = [([1, 2, 3], False)]\<rparr>,
            [0xFF, 0xFF, 0xFE, 2, 1, 0xFE])"
    by code_simp
  from txRxPacket_broadcast[OF h] show ?thesis
    by (simp add: PKT_ID_def BROADCAST_ID_def)
qed

section \<open>Sign and magnitude\<close>

lemma ff16: "(0xFF :: u16) = mask 8" by (simp add: mask_eq_exp_minus_1)










section \<open>Reception\<close>

lemma findHeader_ge: "idx \<le> findHeader rxpacket idx"
proof (induction rxpacket idx rule: findHeader.induct)
  case (1 rxpacket idx)
  show ?case
  proof (cases "idx < length rxpacket - 1 \<and> \<not> (rxpacket ! idx = 0xFF \<and> rxpacket ! (idx + 1) = 0xFF)")
    case True
    with 1 have "idx + 1 \<le> findHeader rxpacket (idx + 1)" by simp
    moreover have "findHeader rxpacket idx = findHeader rxpacket (idx + 1)"
      using True by (subst findHeader.simps) auto
    ultimately show ?thesis by simp
  next
    case False
    hence "findHeader rxpacket idx = idx" by (subst findHeader.simps) auto
    thus ?thesis by simp
  qed
qed

lemma findHeader_le: "idx \<le> length rxpacket - 1 \<Longrightarrow> findHeader rxpacket idx \<le> length rxpacket - 1"
proof (induction rxpacket idx rule: findHeader.induct)
  case (1 rxpacket idx)
  show ?case
  proof (cases "idx < length rxpacket - 1 \<and> \<not> (rxpacket ! idx = 0xFF \<and> rxpacket ! (idx + 1) = 0xFF)")
    case True
    hence "findHeader rxpacket idx = findHeader rxpacket (idx + 1)"
      by (subst findHeader.simps) auto
    moreover have "findHeader rxpacket (idx + 1) \<le> length rxpacket - 1"
      using True 1 by simp
    ultimately show ?thesis by simp
  next
    case False
    hence "findHeader rxpacket idx = idx" by (subst findHeader.simps) auto
    thus ?thesis using 1(2) by simp
  qed
qed

lemma findHeader_first:
  "idx \<le> j \<Longrightarrow> j < length rxpacket - 1 \<Longrightarrow> rxpacket ! j = 0xFF \<Longrightarrow> rxpacket ! (j + 1) = 0xFF
     \<Longrightarrow> findHeader rxpacket idx \<le> j"
proof (induction rxpacket idx rule: findHeader.induct)
  case (1 rxpacket idx)
  show ?case
  proof (cases "rxpacket ! idx = 0xFF \<and> rxpacket ! (idx + 1) = 0xFF")
    case True
    hence "findHeader rxpacket idx = idx" using 1(2,3) by (subst findHeader.simps) auto
    thus ?thesis using 1(2) by simp
  next
    case False
    hence ne: "idx \<noteq> j" using 1(4,5) by auto
    hence lt: "idx < length rxpacket - 1" "idx + 1 \<le> j" using 1(2,3) by auto
    hence "findHeader rxpacket idx = findHeader rxpacket (idx + 1)"
      using False by (subst findHeader.simps) auto
    moreover have "findHeader rxpacket (idx + 1) \<le> j"
      using 1(1)[OF lt(1) False lt(2) 1(3,4,5)] .
    ultimately show ?thesis by simp
  qed
qed

lemma findHeader_0_sync:
  "1 < length rxpacket \<Longrightarrow> rxpacket ! 0 = 0xFF \<Longrightarrow> rxpacket ! 1 = 0xFF \<Longrightarrow> findHeader rxpacket 0 = 0"
  by (subst findHeader.simps) auto

lemma findHeader_0_nosync:
  "\<not> (rxpacket ! 0 = 0xFF \<and> rxpacket ! 1 = 0xFF) \<Longrightarrow> 1 < length rxpacket \<Longrightarrow> 0 < findHeader rxpacket 0"
proof -
  assume a: "\<not> (rxpacket ! 0 = 0xFF \<and> rxpacket ! 1 = 0xFF)" "1 < length rxpacket"
  hence "findHeader rxpacket 0 = findHeader rxpacket 1"
    by (subst findHeader.simps) auto
  thus ?thesis using findHeader_ge[of 1 rxpacket] by simp
qed


lemma readPort_fst: "fst (readPort p n) = (if fd_open p then take n (rx_buffer p) else [])"
  by (simp add: readPort_def)

lemma readPort_snd:
  "snd (readPort p n) = (if fd_open p then p\<lparr>rx_buffer := drop n (rx_buffer p)\<rparr> else p)"
  by (simp add: readPort_def)

lemma readPort_split: "fd_open p \<Longrightarrow> fst (readPort p n) @ rx_buffer (snd (readPort p n)) = rx_buffer p"
  by (simp add: readPort_def)

lemma rxStep_short:
  assumes "readPort (p\<lparr>rx_buffer := rx_buffer p @ arrived\<rparr>) (wait_length - length rxpacket) = (new_data, p1)"
    and "length (rxpacket @ new_data) < wait_length"
  shows "rxStep (arrived, timed_out) p rxpacket wait_length =
           (if timed_out
            then Break (rxpacket @ new_data)
                   (if rxpacket @ new_data = [] then COMM_RX_TIMEOUT else COMM_RX_CORRUPT) p1
            else Continue p1 (rxpacket @ new_data) wait_length)"
  using assms by (simp add: rxStep_def Let_def)

lemma rxStep_discard:
  assumes "readPort (p\<lparr>rx_buffer := rx_buffer p @ arrived\<rparr>) (wait_length - length rxpacket) = (new_data, p1)"
    and "length rxpacket \<le> wait_length" and "wait_length \<le> length (rxpacket @ new_data)"
    and "findHeader (rxpacket @ new_data) 0 \<noteq> 0"
  shows "rxStep (arrived, timed_out) p rxpacket wait_length =
           Continue p1 (drop (findHeader (rxpacket @ new_data) 0) (rxpacket @ new_data)) wait_length"
  using assms by (simp add: rxStep_def Let_def)

lemma rxStep_header:
  assumes "readPort (p\<lparr>rx_buffer := rx_buffer p @ arrived\<rparr>) (wait_length - length rxpacket) = (new_data, p1)"
    and "length rxpacket \<le> wait_length" and "wait_length \<le> length (rxpacket @ new_data)"
    and "findHeader (rxpacket @ new_data) 0 = 0"
    and "PKT_ERROR < length (rxpacket @ new_data)"
    and "unat ((rxpacket @ new_data) ! PKT_ID) \<le> 0xFD"
    and "unat ((rxpacket @ new_data) ! PKT_LENGTH) \<le> RXPACKET_MAX_LEN"
    and "unat ((rxpacket @ new_data) ! PKT_ERROR) \<le> 0x7F"
  shows "rxStep (arrived, timed_out) p rxpacket wait_length =
           (if wait_length \<noteq> unat ((rxpacket @ new_data) ! PKT_LENGTH) + 4
            then Continue p1 (rxpacket @ new_data) (unat ((rxpacket @ new_data) ! PKT_LENGTH) + 4)
            else Break (rxpacket @ new_data)
                   (if (rxpacket @ new_data) ! (wait_length - 1)
                        = NOT (checksum_loop (rxpacket @ new_data) wait_length)
                    then COMM_SUCCESS else COMM_RX_CORRUPT) p1)"
  using assms by (simp add: rxStep_def Let_def and_255_u8 PKT_LENGTH_def)

lemma rxStep_Continue_cases:
  assumes "rxStep (arrived, timed_out) p rxpacket wait_length = Continue p1 rxpacket1 wait_length1"
    and "readPort (p\<lparr>rx_buffer := rx_buffer p @ arrived\<rparr>) (wait_length - length rxpacket) = (new_data, q1)"
  shows "p1 = q1 \<and> length rxpacket \<le> wait_length \<and>
         (rxpacket1 = rxpacket @ new_data
          \<or> (PKT_ERROR < length (rxpacket @ new_data) \<and> rxpacket1 = tl (rxpacket @ new_data))
          \<or> (findHeader (rxpacket @ new_data) 0 \<noteq> 0
              \<and> rxpacket1 = drop (findHeader (rxpacket @ new_data) 0) (rxpacket @ new_data)))"
  using assms(1) unfolding rxStep_def
  by (simp add: assms(2) Let_def split: if_splits)

lemma rxStep_Continue_nonempty:
  assumes "rxStep ev p rxpacket wait_length = Continue p1 rxpacket1 wait_length1"
  shows "length (rx_buffer p1) \<le> length (rx_buffer p) + length (fst ev)
       \<and> (rxpacket1 = [] \<longleftrightarrow>
            rxpacket = [] \<and> length (rx_buffer p1) = length (rx_buffer p) + length (fst ev))"
proof -
  obtain arrived timed_out where ev: "ev = (arrived, timed_out)" by (cases ev)
  obtain new_data q1 where
    rp: "readPort (p\<lparr>rx_buffer := rx_buffer p @ arrived\<rparr>) (wait_length - length rxpacket) = (new_data, q1)"
    by force
  define rx where "rx = rxpacket @ new_data"
  from rxStep_Continue_cases[OF assms[unfolded ev] rp]
  have p1: "p1 = q1"
    and cases: "rxpacket1 = rx \<or> (PKT_ERROR < length rx \<and> rxpacket1 = tl rx)
      \<or> (findHeader rx 0 \<noteq> 0 \<and> rxpacket1 = drop (findHeader rx 0) rx)"
    by (simp_all add: rx_def)
  have fh: "findHeader rx 0 \<le> length rx - 1" by (rule findHeader_le) simp
  have ne: "rxpacket1 = [] \<longleftrightarrow> rx = []"
  proof -
    have a: "tl rx \<noteq> [] \<and> rx \<noteq> []" if "PKT_ERROR < length rx"
      using that by (cases rx) (auto simp: PKT_ERROR_def)
    have b: "drop (findHeader rx 0) rx \<noteq> [] \<and> rx \<noteq> []" if "findHeader rx 0 \<noteq> 0"
      using that fh by (cases rx) auto
    from cases show ?thesis
    proof (elim disjE conjE)
      assume "rxpacket1 = rx" thus ?thesis by simp
    next
      assume "PKT_ERROR < length rx" "rxpacket1 = tl rx"
      thus ?thesis using a by simp
    next
      assume "findHeader rx 0 \<noteq> 0" "rxpacket1 = drop (findHeader rx 0) rx"
      thus ?thesis using b by simp
    qed
  qed
  have len: "length (rx_buffer q1) + length new_data = length (rx_buffer p) + length arrived"
    using rp by (auto simp: readPort_def split: if_splits)
  show ?thesis using ne len unfolding p1 ev rx_def by auto
qed

lemma rxLoop_append:
  "rxIter pre p rxpacket wait_length = Continue p1 rxpacket1 wait_length1
     \<Longrightarrow> rxLoop (pre @ evs) p rxpacket wait_length = rxLoop evs p1 rxpacket1 wait_length1"
proof (induction pre arbitrary: p rxpacket wait_length)
  case Nil
  then show ?case by simp
next
  case (Cons ev pre)
  then show ?case by (cases "rxStep ev p rxpacket wait_length") simp_all
qed

lemma rxIter_received:
  "rxIter pre p rxpacket wait_length = Continue p1 rxpacket1 wait_length1
     \<Longrightarrow> length (rx_buffer p1) \<le> length (rx_buffer p) + length (concat (map fst pre))
       \<and> (rxpacket1 = [] \<longleftrightarrow>
            rxpacket = [] \<and> length (rx_buffer p1) = length (rx_buffer p) + length (concat (map fst pre)))"
proof (induction pre arbitrary: p rxpacket wait_length)
  case Nil
  then show ?case by simp
next
  case (Cons ev pre)
  show ?case
  proof (cases "rxStep ev p rxpacket wait_length")
    case (Continue q rx wl)
    with Cons.prems have it: "rxIter pre q rx wl = Continue p1 rxpacket1 wait_length1" by simp
    from rxStep_Continue_nonempty[OF Continue] Cons.IH[OF it]
    show ?thesis by auto
  next
    case (Break rx r q)
    with Cons.prems show ?thesis by simp
  next
    case (Fault f)
    with Cons.prems show ?thesis by simp
  qed
qed

text \<open>
  C3. \<^verbatim>\<open>rxPacket\<close> consults the deadline in every iteration whose buffer, after the
  read, is still shorter than the length it waits for. Whenever the deadline has passed
  in such an iteration, after any number of iterations \<open>pre\<close> of the loop, the call
  returns at once: with receive-timeout if it has received no byte at all since it
  began, and with receive-corrupt if it has received some.
\<close>

theorem rxPacket_deadline:
  assumes "rx_events p = pre @ (arrived, True) # rest"
    and "rxIter pre p [] 6 = Continue p1 rxpacket wait_length"
    and "readPort (p1\<lparr>rx_buffer := rx_buffer p1 @ arrived\<rparr>) (wait_length - length rxpacket)
           = (new_data, p2)"
    and "length (rxpacket @ new_data) < wait_length"
  shows "rxPacket p =
           Inr (rxpacket @ new_data,
                if bytes_received p (pre @ [(arrived, True)]) p2 = 0
                then COMM_RX_TIMEOUT else COMM_RX_CORRUPT,
                p2\<lparr>rx_events := rest, is_using := False\<rparr>)"
proof -
  from rxIter_received[OF assms(2)]
  have le: "length (rx_buffer p1) \<le> length (rx_buffer p) + length (concat (map fst pre))"
    and em: "rxpacket = [] \<longleftrightarrow>
             length (rx_buffer p1) = length (rx_buffer p) + length (concat (map fst pre))"
    by simp_all
  have len: "length (rx_buffer p2) + length new_data = length (rx_buffer p1) + length arrived"
    using assms(3) by (auto simp: readPort_def split: if_splits)
  have em': "length rxpacket = 0 \<longleftrightarrow>
             length (rx_buffer p1) = length (rx_buffer p) + length (concat (map fst pre))"
    using em by simp
  have "length rxpacket + length new_data = 0
          \<longleftrightarrow> length (rx_buffer p) + (length (concat (map fst pre)) + length arrived)
                 - length (rx_buffer p2) = 0"
    using le em' len by arith
  hence "rxpacket @ new_data = [] \<longleftrightarrow> bytes_received p (pre @ [(arrived, True)]) p2 = 0"
    by (simp add: bytes_received_def)
  moreover have "rxLoop (rx_events p) p [] 6 =
      Inr (rxpacket @ new_data,
           if rxpacket @ new_data = [] then COMM_RX_TIMEOUT else COMM_RX_CORRUPT, p2, rest)"
    unfolding assms(1) rxLoop_append[OF assms(2)]
    by (simp add: rxStep_short[OF assms(3,4)])
  ultimately show ?thesis by (simp add: rxPacket_def)
qed

theorem rxPacket_deadline_witness:
  "rxPacket \<lparr>fd_open = True, is_using = True, rx_buffer = [], tx_wire = [], wr_results = [],
             rx_events = [([], False), ([], True)]\<rparr>
     = Inr ([], COMM_RX_TIMEOUT,
            \<lparr>fd_open = True, is_using = False, rx_buffer = [], tx_wire = [], wr_results = [],
             rx_events = []\<rparr>)
   \<and> rxPacket \<lparr>fd_open = True, is_using = True, rx_buffer = [], tx_wire = [], wr_results = [],
               rx_events = [([0xFF, 0xFF, 1], False), ([4], True), ([], False)]\<rparr>
     = Inr ([0xFF, 0xFF, 1, 4], COMM_RX_CORRUPT,
            \<lparr>fd_open = True, is_using = False, rx_buffer = [], tx_wire = [], wr_results = [],
             rx_events = [([], False)]\<rparr>)"
proof -
  let ?p = "\<lparr>fd_open = True, is_using = True, rx_buffer = [], tx_wire = [], wr_results = [],
             rx_events = [([], False), ([], True)]\<rparr>"
  let ?q = "\<lparr>fd_open = True, is_using = True, rx_buffer = [], tx_wire = [], wr_results = [],
             rx_events = [([0xFF, 0xFF, 1], False), ([4], True), ([], False)]\<rparr>"
  have a1: "rx_events ?p = [([], False)] @ ([], True) # []" by simp
  have a2: "rxIter [([], False)] ?p [] 6 = Continue ?p [] 6" by code_simp
  have a3: "readPort (?p\<lparr>rx_buffer := rx_buffer ?p @ []\<rparr>) (6 - length ([] :: u8 list)) = ([], ?p)"
    by code_simp
  have b1: "rx_events ?q = [([0xFF, 0xFF, 1], False)] @ ([4], True) # [([], False)]" by simp
  have b2: "rxIter [([0xFF, 0xFF, 1], False)] ?q [] 6 = Continue ?q [0xFF, 0xFF, 1] 6" by code_simp
  have b3: "readPort (?q\<lparr>rx_buffer := rx_buffer ?q @ [4]\<rparr>) (6 - length [0xFF, 0xFF, 1 :: u8])
              = ([4], ?q)"
    by code_simp
  show ?thesis
    using rxPacket_deadline[OF a1 a2 a3] rxPacket_deadline[OF b1 b2 b3]
    by (simp add: bytes_received_def)
qed

section \<open>Resynchronisation\<close>

lemma findHeader_found:
  "findHeader rxpacket idx < length rxpacket - 1
     \<Longrightarrow> rxpacket ! findHeader rxpacket idx = 0xFF \<and> rxpacket ! (findHeader rxpacket idx + 1) = 0xFF"
proof (induction rxpacket idx rule: findHeader.induct)
  case (1 rxpacket idx)
  show ?case
  proof (cases "idx < length rxpacket - 1")
    case True
    show ?thesis
    proof (cases "rxpacket ! idx = 0xFF \<and> rxpacket ! (idx + 1) = 0xFF")
      case p: True
      hence "findHeader rxpacket idx = idx" using True by (subst findHeader.simps) auto
      thus ?thesis using p by simp
    next
      case False
      hence e: "findHeader rxpacket idx = findHeader rxpacket (idx + 1)"
        using True by (subst findHeader.simps) auto
      from 1(1)[OF True False] 1(2) show ?thesis unfolding e by simp
    qed
  next
    case False
    hence "findHeader rxpacket idx = idx" by (subst findHeader.simps) auto
    with 1(2) False show ?thesis by simp
  qed
qed

lemma rxStep_invalid:
  assumes "readPort (p\<lparr>rx_buffer := rx_buffer p @ arrived\<rparr>) (wait_length - length rxpacket) = (new_data, p1)"
    and "length rxpacket \<le> wait_length" and "wait_length \<le> length (rxpacket @ new_data)"
    and "findHeader (rxpacket @ new_data) 0 = 0"
    and "PKT_ERROR < length (rxpacket @ new_data)"
    and "unat ((rxpacket @ new_data) ! PKT_ID) > 0xFD
         \<or> unat ((rxpacket @ new_data) ! PKT_LENGTH) > RXPACKET_MAX_LEN
         \<or> unat ((rxpacket @ new_data) ! PKT_ERROR) > 0x7F"
  shows "rxStep (arrived, timed_out) p rxpacket wait_length =
           Continue p1 (tl (rxpacket @ new_data)) wait_length"
  using assms by (auto simp add: rxStep_def Let_def)

lemma no_false_header_short: "length g < 5 \<Longrightarrow> no_false_header g"
  by (cases g rule: no_false_header.cases) auto

lemma no_false_header_tl: "no_false_header g \<Longrightarrow> no_false_header (tl g)"
  by (cases g rule: no_false_header.cases) auto

lemma no_false_header_drop: "no_false_header g \<Longrightarrow> no_false_header (drop k g)"
proof (induction k arbitrary: g)
  case 0
  then show ?case by simp
next
  case (Suc k)
  have "drop (Suc k) g = drop k (tl g)" by (cases g) simp_all
  thus ?case using Suc.IH[OF no_false_header_tl[OF Suc.prems]] by simp
qed

lemma no_false_header_head:
  assumes "no_false_header g" and "g \<noteq> []"
  shows "\<not> ((g @ 0xFF # 0xFF # xs) ! 0 = 0xFF \<and> (g @ 0xFF # 0xFF # xs) ! 1 = 0xFF
            \<and> unat ((g @ 0xFF # 0xFF # xs) ! 2) \<le> 0xFD
            \<and> unat ((g @ 0xFF # 0xFF # xs) ! 3) \<le> RXPACKET_MAX_LEN
            \<and> unat ((g @ 0xFF # 0xFF # xs) ! 4) \<le> 0x7F)"
  using assms by (cases g rule: no_false_header.cases) (auto simp: RXPACKET_MAX_LEN_def)

lemma valid_status_packet_sync:
  "valid_status_packet pkt \<Longrightarrow> \<exists>xs. pkt = 0xFF # 0xFF # xs"
proof -
  assume v: "valid_status_packet pkt"
  then obtain a b xs where "pkt = a # b # xs"
    by (cases pkt; cases "tl pkt") (auto simp: valid_status_packet_def)
  with v show ?thesis by (auto simp: valid_status_packet_def pkt_defs)
qed

lemma valid_status_packet_checksum:
  assumes "valid_status_packet pkt"
  shows "pkt ! (length pkt - 1) = NOT (checksum_loop pkt (length pkt))"
proof -
  have l: "6 \<le> length pkt" and c: "last pkt = NOT (sum_list (butlast (drop 2 pkt)))"
    using assms by (simp_all add: valid_status_packet_def)
  have "pkt \<noteq> []" using l by auto
  hence "last pkt = pkt ! (length pkt - 1)" by (rule last_conv_nth)
  moreover have "butlast (drop 2 pkt) = take (length pkt - 3) (drop 2 pkt)"
    by (simp add: butlast_conv_take)
  ultimately show ?thesis using c by (simp add: checksum_loop_slice)
qed

lemma resync_step:
  assumes v: "valid_status_packet pkt"
    and inv: "resync_inv pkt p rx wl (arrived @ fut) g"
    and t: "\<not> t \<or> fut = []"
  shows "(\<exists>p'. rxStep (arrived, t) p rx wl = Break pkt COMM_SUCCESS p' \<and> rx_buffer p' = [] \<and> fut = [])
       \<or> (\<exists>p1 rx1 wl1 g1. rxStep (arrived, t) p rx wl = Continue p1 rx1 wl1
              \<and> resync_inv pkt p1 rx1 wl1 fut g1
              \<and> resync_measure pkt g1 wl1 \<le> resync_measure pkt g wl
              \<and> (fut = [] \<longrightarrow> resync_measure pkt g1 wl1 < resync_measure pkt g wl))"
proof -
  from inv have fd: "fd_open p"
    and eq: "rx @ rx_buffer p @ arrived @ fut = g @ pkt"
    and ns: "no_false_header g"
    and lt: "length rx < wl"
    and wls: "wl = 6 \<or> (g = [] \<and> wl = length pkt)"
    by (simp_all add: resync_inv_def)
  from v have l6: "6 \<le> length pkt" and lp: "length pkt = unat (pkt ! 3) + 4"
    and hid: "unat (pkt ! 2) \<le> 0xFD" and hlen: "unat (pkt ! 3) \<le> RXPACKET_MAX_LEN"
    and herr: "unat (pkt ! 4) \<le> 0x7F"
    by (simp_all add: valid_status_packet_def pkt_defs)
  from valid_status_packet_sync[OF v] obtain xs where pk: "pkt = 0xFF # 0xFF # xs" by blast
  define queue where "queue = rx_buffer p @ arrived"
  define n where "n = wl - length rx"
  define new where "new = take n queue"
  define p1 where "p1 = p\<lparr>rx_buffer := drop n queue\<rparr>"
  define rx' where "rx' = rx @ new"
  have npos: "0 < n" using lt by (simp add: n_def)
  have rp: "readPort (p\<lparr>rx_buffer := rx_buffer p @ arrived\<rparr>) (wl - length rx) = (new, p1)"
    using fd npos by (simp add: readPort_def new_def p1_def queue_def n_def)
  have fd1: "fd_open p1" using fd by (simp add: p1_def)
  have b1: "rx_buffer p1 = drop n queue" by (simp add: p1_def)
  have nq: "new @ rx_buffer p1 = queue" by (simp add: new_def b1)
  have "rx' @ rx_buffer p1 @ fut = rx @ (new @ rx_buffer p1) @ fut" by (simp add: rx'_def)
  also have "\<dots> = rx @ queue @ fut" by (simp only: nq)
  also have "\<dots> = g @ pkt" using eq by (simp add: queue_def)
  finally have eq1: "rx' @ rx_buffer p1 @ fut = g @ pkt" .
  have len': "length rx' \<le> wl" using lt by (simp add: rx'_def new_def n_def)
  have wl6: "6 \<le> wl" using wls l6 by auto
  have wlp: "wl \<le> length g + length pkt" using wls l6 by auto
  show ?thesis
  proof (cases "length rx' < wl")
    case True
    have short: "length queue < n" using True lt by (auto simp: rx'_def new_def n_def)
    hence e: "rx_buffer p1 = []" by (simp add: b1)
    have fne: "fut \<noteq> []"
    proof
      assume "fut = []"
      with eq1 e have "rx' = g @ pkt" by simp
      with True wlp show False by simp
    qed
    with t have nt: "\<not> t" by simp
    have st: "rxStep (arrived, t) p rx wl = Continue p1 rx' wl"
      using rxStep_short[OF rp, of t] True nt by (simp add: rx'_def)
    have "resync_inv pkt p1 rx' wl fut g"
      using fd1 eq1 ns True wls by (simp add: resync_inv_def)
    with st fne show ?thesis by auto
  next
    case False
    with len' have full: "length rx' = wl" by simp
    have pre: "rx' = take wl (g @ pkt)"
    proof -
      have "take (length rx') (rx' @ rx_buffer p1 @ fut) = rx'" by simp
      thus ?thesis unfolding eq1 full by simp
    qed
    have le_rx: "length rx \<le> wl" using lt by simp
    have ge_rx: "wl \<le> length (rx @ new)" using full by (simp add: rx'_def)
    show ?thesis
    proof (cases "g = []")
      case True
      have rxp: "rx' = take wl pkt" using pre True by simp
      have nth: "rx' ! i = pkt ! i" if "i < wl" for i using that by (simp add: rxp)
      have wlle: "wl \<le> length pkt" using wlp True by simp
      have h0: "findHeader rx' 0 = 0"
      proof (rule findHeader_0_sync)
        show "1 < length rx'" using full wl6 by simp
        show "rx' ! 0 = 0xFF" using nth[of 0] wl6 pk by simp
        show "rx' ! 1 = 0xFF" using nth[of 1] wl6 pk by simp
      qed
      have n2: "rx' ! 2 = pkt ! 2" and n3: "rx' ! 3 = pkt ! 3" and n4: "rx' ! 4 = pkt ! 4"
        using nth[of 2] nth[of 3] nth[of 4] wl6 by simp_all
      have st: "rxStep (arrived, t) p rx wl =
           (if wl \<noteq> unat (rx' ! PKT_LENGTH) + 4
            then Continue p1 rx' (unat (rx' ! PKT_LENGTH) + 4)
            else Break rx'
                   (if rx' ! (wl - 1) = NOT (checksum_loop rx' wl)
                    then COMM_SUCCESS else COMM_RX_CORRUPT) p1)"
        unfolding rx'_def
      proof (rule rxStep_header[OF rp le_rx ge_rx])
        show "findHeader (rx @ new) 0 = 0" using h0 by (simp add: rx'_def)
        show "PKT_ERROR < length (rx @ new)" using full wl6 by (simp add: rx'_def PKT_ERROR_def)
        show "unat ((rx @ new) ! PKT_ID) \<le> 0xFD" using hid n2 by (simp add: rx'_def PKT_ID_def)
        show "unat ((rx @ new) ! PKT_LENGTH) \<le> RXPACKET_MAX_LEN"
          using hlen n3 by (simp add: rx'_def PKT_LENGTH_def)
        show "unat ((rx @ new) ! PKT_ERROR) \<le> 0x7F" using herr n4 by (simp add: rx'_def PKT_ERROR_def)
      qed
      have lenf: "unat (rx' ! PKT_LENGTH) + 4 = length pkt" using n3 lp by (simp add: PKT_LENGTH_def)
      show ?thesis
      proof (cases "wl = length pkt")
        case True
        hence rxpk: "rx' = pkt" using rxp by simp
        have "rx' ! (wl - 1) = NOT (checksum_loop rx' wl)"
          unfolding rxpk True by (rule valid_status_packet_checksum[OF v])
        hence b: "rxStep (arrived, t) p rx wl = Break pkt COMM_SUCCESS p1"
          using st lenf True rxpk by simp
        from eq1 rxpk \<open>g = []\<close> have "rx_buffer p1 = [] \<and> fut = []" by simp
        with b show ?thesis by blast
      next
        case False
        with wls \<open>g = []\<close> have w6: "wl = 6" by simp
        have c: "rxStep (arrived, t) p rx wl = Continue p1 rx' (length pkt)"
          using st lenf False by simp
        have "length rx' < length pkt" using full w6 l6 False by simp
        hence "resync_inv pkt p1 rx' (length pkt) fut []"
          using fd1 eq1 \<open>g = []\<close> by (simp add: resync_inv_def)
        moreover have "resync_measure pkt [] (length pkt) < resync_measure pkt g wl"
          using False by (simp add: resync_measure_def)
        ultimately show ?thesis using c by (metis less_imp_le)
      qed
    next
      case False
      with wls have w6: "wl = 6" by simp
      have l6': "length rx' = 6" using full w6 by simp
      have nth: "rx' ! i = (g @ pkt) ! i" if "i < 6" for i
        unfolding pre w6 using that by (rule nth_take)
      define idx where "idx = findHeader rx' 0"
      have ile5: "idx \<le> 5" unfolding idx_def using findHeader_le[of 0 rx'] l6' by simp
      have ileg: "idx \<le> length g"
      proof (cases "5 \<le> length g")
        case True
        with ile5 show ?thesis by simp
      next
        case False
        hence j: "length g < 5" by simp
        have "rx' ! length g = 0xFF" using nth[of "length g"] j by (simp add: pk nth_append)
        moreover have "rx' ! (length g + 1) = 0xFF"
          using nth[of "length g + 1"] j by (simp add: pk nth_append)
        ultimately show ?thesis
          unfolding idx_def using j l6' by (intro findHeader_first) simp_all
      qed
      show ?thesis
      proof (cases "idx = 0")
        case False
        hence ipos: "0 < idx" by simp
        have st: "rxStep (arrived, t) p rx wl = Continue p1 (drop idx rx') wl"
          unfolding idx_def rx'_def
          by (rule rxStep_discard[OF rp le_rx ge_rx]) (use ipos in \<open>simp add: idx_def rx'_def\<close>)
        have "drop idx rx' @ rx_buffer p1 @ fut = drop idx (rx' @ rx_buffer p1 @ fut)"
          using ile5 l6' by simp
        also have "\<dots> = drop idx g @ pkt" unfolding eq1 using ileg by simp
        finally have e: "drop idx rx' @ rx_buffer p1 @ fut = drop idx g @ pkt" .
        have "resync_inv pkt p1 (drop idx rx') wl fut (drop idx g)"
          using fd1 e no_false_header_drop[OF ns] ipos l6' w6 by (simp add: resync_inv_def)
        moreover have "resync_measure pkt (drop idx g) wl < resync_measure pkt g wl"
          using ipos ileg \<open>g \<noteq> []\<close> by (simp add: resync_measure_def)
        ultimately show ?thesis using st by (metis less_imp_le)
      next
        case True
        hence h0: "findHeader rx' 0 = 0" by (simp add: idx_def)
        have "findHeader rx' 0 < length rx' - 1" using h0 l6' by simp
        from findHeader_found[OF this] have sync: "rx' ! 0 = 0xFF" "rx' ! 1 = 0xFF"
          by (simp_all add: h0)
        have bad: "\<not> ((g @ pkt) ! 0 = 0xFF \<and> (g @ pkt) ! 1 = 0xFF
            \<and> unat ((g @ pkt) ! 2) \<le> 0xFD \<and> unat ((g @ pkt) ! 3) \<le> RXPACKET_MAX_LEN
            \<and> unat ((g @ pkt) ! 4) \<le> 0x7F)"
          unfolding pk by (rule no_false_header_head[OF ns \<open>g \<noteq> []\<close>])
        have inval: "unat (rx' ! PKT_ID) > 0xFD \<or> unat (rx' ! PKT_LENGTH) > RXPACKET_MAX_LEN
            \<or> unat (rx' ! PKT_ERROR) > 0x7F"
          using bad sync nth[of 0] nth[of 1] nth[of 2] nth[of 3] nth[of 4]
          by (auto simp: pkt_defs)
        have st: "rxStep (arrived, t) p rx wl = Continue p1 (tl rx') wl"
          unfolding rx'_def
        proof (rule rxStep_invalid[OF rp le_rx ge_rx])
          show "findHeader (rx @ new) 0 = 0" using h0 by (simp add: rx'_def)
          show "PKT_ERROR < length (rx @ new)" using l6' by (simp add: rx'_def PKT_ERROR_def)
          show "unat ((rx @ new) ! PKT_ID) > 0xFD
              \<or> unat ((rx @ new) ! PKT_LENGTH) > RXPACKET_MAX_LEN
              \<or> unat ((rx @ new) ! PKT_ERROR) > 0x7F"
            using inval by (simp add: rx'_def)
        qed
        have "rx' \<noteq> []" using l6' by auto
        hence "tl rx' @ rx_buffer p1 @ fut = tl (rx' @ rx_buffer p1 @ fut)" by simp
        also have "\<dots> = tl g @ pkt" unfolding eq1 using \<open>g \<noteq> []\<close> by simp
        finally have e: "tl rx' @ rx_buffer p1 @ fut = tl g @ pkt" .
        have "resync_inv pkt p1 (tl rx') wl fut (tl g)"
          using fd1 e no_false_header_tl[OF ns] l6' w6 by (simp add: resync_inv_def)
        moreover have "resync_measure pkt (tl g) wl < resync_measure pkt g wl"
          using \<open>g \<noteq> []\<close> by (simp add: resync_measure_def)
        ultimately show ?thesis using st by (metis less_imp_le)
      qed
    qed
  qed
qed

lemma resync_idle:
  assumes v: "valid_status_packet pkt"
  shows "resync_inv pkt p rx wl [] g \<Longrightarrow> \<forall>e\<in>set evs. fst e = []
     \<Longrightarrow> resync_measure pkt g wl < length evs
     \<Longrightarrow> \<exists>p' evs'. rxLoop evs p rx wl = Inr (pkt, COMM_SUCCESS, p', evs') \<and> rx_buffer p' = []"
proof (induction evs arbitrary: p rx wl g)
  case Nil
  then show ?case by simp
next
  case (Cons e evs)
  obtain t where e: "e = ([], t)" using Cons.prems(2) by (cases e) auto
  have inv: "resync_inv pkt p rx wl ([] @ []) g" using Cons.prems(1) by simp
  from resync_step[OF v inv, of t]
  consider (brk) p' where "rxStep ([], t) p rx wl = Break pkt COMM_SUCCESS p'" "rx_buffer p' = []"
    | (cont) p1 rx1 wl1 g1 where "rxStep ([], t) p rx wl = Continue p1 rx1 wl1"
        "resync_inv pkt p1 rx1 wl1 [] g1" "resync_measure pkt g1 wl1 < resync_measure pkt g wl"
    by blast
  then show ?case
  proof cases
    case brk
    then show ?thesis by (simp add: e)
  next
    case cont
    have "resync_measure pkt g1 wl1 < length evs" using cont(3) Cons.prems(3) by simp
    from Cons.IH[OF cont(2) _ this] Cons.prems(2)
    show ?thesis by (simp add: e cont(1))
  qed
qed

lemma resync_loop:
  assumes v: "valid_status_packet pkt"
    and idle: "\<forall>e\<in>set evs2. fst e = []"
  shows "resync_inv pkt p rx wl (concat (map fst evs1)) g \<Longrightarrow> \<forall>e\<in>set evs1. \<not> snd e
     \<Longrightarrow> resync_measure pkt g wl < length evs2
     \<Longrightarrow> \<exists>p' evs'. rxLoop (evs1 @ evs2) p rx wl = Inr (pkt, COMM_SUCCESS, p', evs')
           \<and> rx_buffer p' = []"
proof (induction evs1 arbitrary: p rx wl g)
  case Nil
  from resync_idle[OF v _ idle Nil(3)] Nil(1) show ?case by simp
next
  case (Cons e evs1)
  obtain arrived where e: "e = (arrived, False)" using Cons.prems(2) by (cases e) auto
  have inv: "resync_inv pkt p rx wl (arrived @ concat (map fst evs1)) g"
    using Cons.prems(1) by (simp add: e)
  from resync_step[OF v inv, of False]
  consider (brk) p' where "rxStep (arrived, False) p rx wl = Break pkt COMM_SUCCESS p'"
        "rx_buffer p' = []"
    | (cont) p1 rx1 wl1 g1 where "rxStep (arrived, False) p rx wl = Continue p1 rx1 wl1"
        "resync_inv pkt p1 rx1 wl1 (concat (map fst evs1)) g1"
        "resync_measure pkt g1 wl1 \<le> resync_measure pkt g wl"
    by blast
  then show ?case
  proof cases
    case brk
    then show ?thesis by (simp add: e)
  next
    case cont
    have "resync_measure pkt g1 wl1 < length evs2" using cont(3) Cons.prems(3) by simp
    from Cons.IH[OF cont(2) _ this] Cons.prems(2)
    show ?thesis by (simp add: e cont(1))
  qed
qed

text \<open>
  The stream may also reach the port in any division into arrivals, as long as the
  deadline does not pass in an iteration that still waits for bytes.
\<close>

lemma rxPacket_resync_arrivals:
  assumes "valid_status_packet pkt" and "no_false_header garbage" and "fd_open p"
    and "rx_events p = evs1 @ evs2"
    and "rx_buffer p @ concat (map fst evs1) = garbage @ pkt"
    and "\<forall>e\<in>set evs1. \<not> snd e" and "\<forall>e\<in>set evs2. fst e = []"
    and "length garbage + 2 \<le> length evs2"
  shows "\<exists>p'. rxPacket p = Inr (pkt, COMM_SUCCESS, p') \<and> rx_buffer p' = [] \<and> \<not> is_using p'"
proof -
  have inv: "resync_inv pkt p [] 6 (concat (map fst evs1)) garbage"
    using assms(2,3,5) by (simp add: resync_inv_def)
  have m: "resync_measure pkt garbage 6 < length evs2"
    using assms(8) by (simp add: resync_measure_def)
  from resync_loop[OF assms(1,7) inv assms(6) m]
  obtain p' evs' where "rxLoop (evs1 @ evs2) p [] 6 = Inr (pkt, COMM_SUCCESS, p', evs')"
    "rx_buffer p' = []" by blast
  thus ?thesis by (simp add: rxPacket_def assms(4))
qed

text \<open>
  C2, as stated, fails: it restricts the garbage only in that no \<open>0xFF 0xFF\<close> pair spans
  into the packet. Five garbage bytes \<open>FF FF 05 03 00\<close>, which end in \<open>00\<close>, in front of
  the valid packet \<open>FF FF 01 02 00 FC\<close>: the receiver finds the sync pair of the garbage at
  position 0, accepts its three header fields, takes seven bytes for the packet and
  returns them with receive-corrupt; the valid packet is cut in two.
\<close>

theorem rxPacket_resync_counterexample:
  "rxPacket \<lparr>fd_open = True, is_using = True,
             rx_buffer = [0xFF, 0xFF, 5, 3, 0] @ [0xFF, 0xFF, 1, 2, 0, 0xFC],
             tx_wire = [], wr_results = [],
             rx_events = [([], False), ([], False), ([], False), ([], False)]\<rparr>
     = Inr ([0xFF, 0xFF, 5, 3, 0, 0xFF, 0xFF], COMM_RX_CORRUPT,
            \<lparr>fd_open = True, is_using = False, rx_buffer = [1, 2, 0, 0xFC],
             tx_wire = [], wr_results = [],
             rx_events = [([], False), ([], False)]\<rparr>)
   \<and> valid_status_packet [0xFF, 0xFF, 1, 2, 0, 0xFC]
   \<and> last [0xFF, 0xFF, 5, 3, 0 :: u8] \<noteq> 0xFF"
  by code_simp

text \<open>
  C2, amended. Let the garbage hold no false header, that is no \<open>0xFF 0xFF\<close> pair
  followed by three bytes in the ranges \<^verbatim>\<open>rxPacket\<close> accepts for identifier, length and
  error. Any other sync pair in the garbage is discarded by the search or, when it
  stands at the head of the buffer, by the removal of one byte after the header check;
  a pair that spans into the packet is among these, since the first sync byte of the
  packet is out of range in each of the three fields. For every such stream
  \<open>garbage @ pkt\<close> at an open port, whatever the deadline does, \<^verbatim>\<open>rxPacket\<close> returns
  exactly the packet with result success within \<open>N + 2\<close> iterations, and the input
  queue is empty: the \<open>N\<close> garbage bytes, and nothing else, were discarded.
\<close>

theorem rxPacket_resync:
  assumes "valid_status_packet pkt" and "no_false_header garbage" and "fd_open p"
    and "rx_buffer p = garbage @ pkt"
    and "\<forall>e\<in>set (rx_events p). fst e = []"
    and "length garbage + 2 \<le> length (rx_events p)"
  shows "\<exists>p'. rxPacket p = Inr (pkt, COMM_SUCCESS, p') \<and> rx_buffer p' = [] \<and> \<not> is_using p'"
proof -
  have e: "rx_events p = [] @ rx_events p" by simp
  show ?thesis
    by (rule rxPacket_resync_arrivals[OF assms(1,2,3) e _ _ assms(5,6)]) (simp_all add: assms(4))
qed

theorem rxPacket_resync_witness:
  "(\<exists>p'. rxPacket \<lparr>fd_open = True, is_using = True,
                   rx_buffer = [0xFF, 0xFF, 0xFE, 0, 0] @ [0xFF, 0xFF, 1, 2, 0, 0xFC],
                   tx_wire = [], wr_results = [],
                   rx_events = [([], True), ([], True), ([], True), ([], True), ([], True),
                                ([], True), ([], True)]\<rparr>
          = Inr ([0xFF, 0xFF, 1, 2, 0, 0xFC], COMM_SUCCESS, p')
        \<and> rx_buffer p' = [] \<and> \<not> is_using p')
   \<and> (\<exists>p'. rxPacket \<lparr>fd_open = True, is_using = True,
                   rx_buffer = [7, 0xFF, 0xFF] @ [0xFF, 0xFF, 1, 4, 0, 1, 9, 0xF0],
                   tx_wire = [], wr_results = [],
                   rx_events = [([], False), ([], False), ([], False), ([], False),
                                ([], False)]\<rparr>
          = Inr ([0xFF, 0xFF, 1, 4, 0, 1, 9, 0xF0], COMM_SUCCESS, p')
        \<and> rx_buffer p' = [] \<and> \<not> is_using p')"
proof -
  have v: "valid_status_packet [0xFF, 0xFF, 1, 2, 0, 0xFC]" by code_simp
  have g: "no_false_header [0xFF, 0xFF, 0xFE, 0, 0]" by code_simp
  have v': "valid_status_packet [0xFF, 0xFF, 1, 4, 0, 1, 9, 0xF0]" by code_simp
  have g': "no_false_header [7, 0xFF, 0xFF]" by code_simp
  have a: "\<exists>p'. rxPacket \<lparr>fd_open = True, is_using = True,
                   rx_buffer = [0xFF, 0xFF, 0xFE, 0, 0] @ [0xFF, 0xFF, 1, 2, 0, 0xFC],
                   tx_wire = [], wr_results = [],
                   rx_events = [([], True), ([], True), ([], True), ([], True), ([], True),
                                ([], True), ([], True)]\<rparr>
          = Inr ([0xFF, 0xFF, 1, 2, 0, 0xFC], COMM_SUCCESS, p')
        \<and> rx_buffer p' = [] \<and> \<not> is_using p'"
    by (rule rxPacket_resync[OF v g]) simp_all
  have b: "\<exists>p'. rxPacket \<lparr>fd_open = True, is_using = True,
                   rx_buffer = [7, 0xFF, 0xFF] @ [0xFF, 0xFF, 1, 4, 0, 1, 9, 0xF0],
                   tx_wire = [], wr_results = [],
                   rx_events = [([], False), ([], False), ([], False), ([], False),
                                ([], False)]\<rparr>
          = Inr ([0xFF, 0xFF, 1, 4, 0, 1, 9, 0xF0], COMM_SUCCESS, p')
        \<and> rx_buffer p' = [] \<and> \<not> is_using p'"
    by (rule rxPacket_resync[OF v' g']) simp_all
  from a b show ?thesis by blast
qed

section \<open>A whole exchange\<close>

text \<open>
  \<^verbatim>\<open>txPacket\<close> on a free, open port whose \<^verbatim>\<open>write\<close> takes the whole packet: the frame
  that goes out, and the port afterwards.
\<close>

lemma txPacket_ok:
  assumes "\<not> is_using p" and "fd_open p" and "wr_results p = int (length t) # ws"
    and "length t = unat (t ! PKT_LENGTH) + 4" and "length t \<le> TXPACKET_MAX_LEN"
  shows "txPacket p t =
           (let t1 = t[0 := 0xFF, 1 := 0xFF];
                t2 = t1[length t - 1 := NOT (checksum_loop t1 (length t))]
            in Inr (COMM_SUCCESS,
                    p\<lparr>is_using := True, rx_buffer := [], tx_wire := tx_wire p @ t2,
                      wr_results := ws\<rparr>, t2))"
proof -
  have n4: "4 \<le> length t" using assms(4) by simp
  hence ne: "t \<noteq> []" by auto
  show ?thesis
    using assms(1,2,3,5) n4 ne unfolding txPacket_def assms(4)[symmetric] Let_def
    by (simp add: writePort_def clearPort_def pkt_defs and_255_u8)
qed

text \<open>
  \<^verbatim>\<open>rxPacket\<close> on an empty queue into which a valid status packet arrives in one
  piece: a six-byte packet is returned in the first iteration, a longer one in the
  second, which takes the next script entry.
\<close>

lemma rxPacket_reply:
  assumes v: "valid_status_packet pkt" and fd: "fd_open p" and eb: "rx_buffer p = []"
    and ev: "rx_events p = (pkt, t0) # evs" and ne: "6 < length pkt \<longrightarrow> evs \<noteq> []"
  shows "rxPacket p =
           Inr (pkt, COMM_SUCCESS,
                if length pkt = 6
                then p\<lparr>is_using := False, rx_buffer := [], rx_events := evs\<rparr>
                else p\<lparr>is_using := False, rx_buffer := fst (hd evs), rx_events := tl evs\<rparr>)"
proof -
  from v have l6: "6 \<le> length pkt" and lp: "length pkt = unat (pkt ! 3) + 4"
    and hid: "unat (pkt ! 2) \<le> 0xFD" and hlen: "unat (pkt ! 3) \<le> RXPACKET_MAX_LEN"
    and herr: "unat (pkt ! 4) \<le> 0x7F"
    by (simp_all add: valid_status_packet_def pkt_defs)
  from valid_status_packet_sync[OF v] obtain xs where pk: "pkt = 0xFF # 0xFF # xs" by blast
  define p1 where "p1 = p\<lparr>rx_buffer := drop 6 pkt\<rparr>"
  have rp: "readPort (p\<lparr>rx_buffer := rx_buffer p @ pkt\<rparr>) (6 - length ([] :: u8 list))
              = (take 6 pkt, p1)"
    using fd by (simp add: readPort_def eb p1_def)
  have h0: "findHeader (take 6 pkt) 0 = 0"
    by (rule findHeader_0_sync) (use l6 pk in simp_all)
  have st1: "rxStep (pkt, t0) p [] 6 =
           (if 6 \<noteq> unat (([] @ take 6 pkt) ! PKT_LENGTH) + 4
            then Continue p1 ([] @ take 6 pkt) (unat (([] @ take 6 pkt) ! PKT_LENGTH) + 4)
            else Break ([] @ take 6 pkt)
                   (if ([] @ take 6 pkt) ! (6 - 1) = NOT (checksum_loop ([] @ take 6 pkt) 6)
                    then COMM_SUCCESS else COMM_RX_CORRUPT) p1)"
  proof (rule rxStep_header[OF rp])
    show "findHeader ([] @ take 6 pkt) 0 = 0" using h0 by simp
    show "PKT_ERROR < length ([] @ take 6 pkt)" using l6 by (simp add: PKT_ERROR_def)
    show "unat (([] @ take 6 pkt) ! PKT_ID) \<le> 0xFD" using hid by (simp add: PKT_ID_def)
    show "unat (([] @ take 6 pkt) ! PKT_LENGTH) \<le> RXPACKET_MAX_LEN"
      using hlen by (simp add: PKT_LENGTH_def)
    show "unat (([] @ take 6 pkt) ! PKT_ERROR) \<le> 0x7F" using herr by (simp add: PKT_ERROR_def)
  qed (use l6 in simp_all)
  have lenf: "unat (take 6 pkt ! PKT_LENGTH) + 4 = length pkt" using lp by (simp add: PKT_LENGTH_def)
  show ?thesis
  proof (cases "length pkt = 6")
    case True
    hence tk: "take 6 pkt = pkt" by simp
    have ck: "pkt ! (6 - 1) = NOT (checksum_loop pkt 6)"
      using valid_status_packet_checksum[OF v] True by simp
    have "rxStep (pkt, t0) p [] 6 = Break pkt COMM_SUCCESS p1"
      using st1 lenf True ck by (simp add: tk)
    thus ?thesis using True by (simp add: rxPacket_def ev p1_def)
  next
    case False
    hence gt: "6 < length pkt" using l6 by simp
    with ne obtain a t1 rest where evs: "evs = (a, t1) # rest" by (cases evs) auto
    have c1: "rxStep (pkt, t0) p [] 6 = Continue p1 (take 6 pkt) (length pkt)"
      using st1 lenf False by simp
    define p2 where "p2 = p1\<lparr>rx_buffer := a\<rparr>"
    have rp2: "readPort (p1\<lparr>rx_buffer := rx_buffer p1 @ a\<rparr>) (length pkt - length (take 6 pkt))
                = (drop 6 pkt, p2)"
      using fd gt by (simp add: readPort_def p1_def p2_def)
    have full: "take 6 pkt @ drop 6 pkt = pkt" by simp
    have st2: "rxStep (a, t1) p1 (take 6 pkt) (length pkt) =
           (if length pkt \<noteq> unat ((take 6 pkt @ drop 6 pkt) ! PKT_LENGTH) + 4
            then Continue p2 (take 6 pkt @ drop 6 pkt)
                   (unat ((take 6 pkt @ drop 6 pkt) ! PKT_LENGTH) + 4)
            else Break (take 6 pkt @ drop 6 pkt)
                   (if (take 6 pkt @ drop 6 pkt) ! (length pkt - 1)
                        = NOT (checksum_loop (take 6 pkt @ drop 6 pkt) (length pkt))
                    then COMM_SUCCESS else COMM_RX_CORRUPT) p2)"
    proof (rule rxStep_header[OF rp2])
      show "findHeader (take 6 pkt @ drop 6 pkt) 0 = 0"
        unfolding full by (rule findHeader_0_sync) (use l6 pk in simp_all)
      show "PKT_ERROR < length (take 6 pkt @ drop 6 pkt)" using l6 by (simp add: PKT_ERROR_def)
      show "unat ((take 6 pkt @ drop 6 pkt) ! PKT_ID) \<le> 0xFD"
        unfolding full using hid by (simp add: PKT_ID_def)
      show "unat ((take 6 pkt @ drop 6 pkt) ! PKT_LENGTH) \<le> RXPACKET_MAX_LEN"
        unfolding full using hlen by (simp add: PKT_LENGTH_def)
      show "unat ((take 6 pkt @ drop 6 pkt) ! PKT_ERROR) \<le> 0x7F"
        unfolding full using herr by (simp add: PKT_ERROR_def)
    qed (use l6 in simp_all)
    have "rxStep (a, t1) p1 (take 6 pkt) (length pkt) = Break pkt COMM_SUCCESS p2"
      using st2 lp valid_status_packet_checksum[OF v] unfolding full by (simp add: PKT_LENGTH_def)
    thus ?thesis using False c1 by (simp add: rxPacket_def ev evs p1_def p2_def)
  qed
qed

text \<open>
  \<^verbatim>\<open>txRxPacket\<close> when the addressed device answers with a valid status packet that
  carries its identifier: the frame sent, the reply, and the error byte taken from it.
\<close>

lemma txRxPacket_reply:
  assumes free: "\<not> is_using p" and fd: "fd_open p"
    and wr: "wr_results p = int (length t) # ws"
    and lt: "length t = unat (t ! PKT_LENGTH) + 4" and mx: "length t \<le> TXPACKET_MAX_LEN"
    and l6: "6 \<le> length t"
    and nb: "t ! PKT_ID \<noteq> BROADCAST_ID"
    and rd: "t ! PKT_INSTRUCTION = INST_READ \<longrightarrow> PKT_PARAMETER0 + 1 < length t"
    and v: "valid_status_packet reply" and rid: "reply ! PKT_ID = t ! PKT_ID"
    and ev: "rx_events p = (reply, t0) # evs" and ne: "6 < length reply \<longrightarrow> evs \<noteq> []"
  shows "txRxPacket p t =
           (let s1 = t[0 := 0xFF, 1 := 0xFF];
                s2 = s1[length t - 1 := NOT (checksum_loop s1 (length t))]
            in Inr (reply, COMM_SUCCESS, reply ! PKT_ERROR,
                    if length reply = 6
                    then p\<lparr>is_using := False, rx_buffer := [], tx_wire := tx_wire p @ s2,
                           wr_results := ws, rx_events := evs\<rparr>
                    else p\<lparr>is_using := False, rx_buffer := fst (hd evs),
                           tx_wire := tx_wire p @ s2, wr_results := ws, rx_events := tl evs\<rparr>))"
proof -
  define s1 where "s1 = t[0 := 0xFF, 1 := 0xFF]"
  define s2 where "s2 = s1[length t - 1 := NOT (checksum_loop s1 (length t))]"
  define p1 where "p1 = p\<lparr>is_using := True, rx_buffer := [], tx_wire := tx_wire p @ s2,
                          wr_results := ws\<rparr>"
  have tx: "txPacket p t = Inr (COMM_SUCCESS, p1, s2)"
    using txPacket_ok[OF free fd wr lt mx] by (simp add: Let_def s1_def s2_def p1_def)
  have ls2: "length s2 = length t" by (simp add: s2_def s1_def)
  have id2: "s2 ! PKT_ID = t ! PKT_ID" and in2: "s2 ! PKT_INSTRUCTION = t ! PKT_INSTRUCTION"
    using l6 by (simp_all add: s2_def s1_def pkt_defs)
  from v have rl: "6 \<le> length reply" by (simp add: valid_status_packet_def)
  have rx: "rxPacket p1 =
           Inr (reply, COMM_SUCCESS,
                if length reply = 6
                then p1\<lparr>is_using := False, rx_buffer := [], rx_events := evs\<rparr>
                else p1\<lparr>is_using := False, rx_buffer := fst (hd evs), rx_events := tl evs\<rparr>)"
    by (rule rxPacket_reply[OF v]) (simp_all add: p1_def fd ev ne)
  have ru: "rxUntil p1 (t ! PKT_ID) =
           Inr (reply, COMM_SUCCESS,
                if length reply = 6
                then p1\<lparr>is_using := False, rx_buffer := [], rx_events := evs\<rparr>
                else p1\<lparr>is_using := False, rx_buffer := fst (hd evs), rx_events := tl evs\<rparr>)"
    using rl rid by (subst rxUntil.simps) (simp add: rx PKT_ID_def)
  have g1: "\<not> length s2 \<le> PKT_INSTRUCTION" using l6 ls2 by (simp add: PKT_INSTRUCTION_def)
  have g2: "\<not> (s2 ! PKT_INSTRUCTION = INST_READ \<and> length s2 \<le> PKT_PARAMETER0 + 1)"
    using rd in2 ls2 by auto
  have g3: "PKT_ERROR < length reply" using rl by (simp add: PKT_ERROR_def)
  have "txRxPacket p t =
           Inr (reply, COMM_SUCCESS, reply ! PKT_ERROR,
                if length reply = 6
                then p1\<lparr>is_using := False, rx_buffer := [], rx_events := evs\<rparr>
                else p1\<lparr>is_using := False, rx_buffer := fst (hd evs), rx_events := tl evs\<rparr>)"
    unfolding txRxPacket_def tx
    using nb g1 g2 g3 rid by (simp add: id2 ru)
  thus ?thesis
    unfolding Let_def s1_def[symmetric] s2_def[symmetric] by (simp add: p1_def)
qed

text \<open>\<^verbatim>\<open>txRxPacket\<close> when nothing answers before the deadline.\<close>

lemma txRxPacket_silent:
  assumes free: "\<not> is_using p" and fd: "fd_open p"
    and wr: "wr_results p = int (length t) # ws"
    and lt: "length t = unat (t ! PKT_LENGTH) + 4" and mx: "length t \<le> TXPACKET_MAX_LEN"
    and l6: "6 \<le> length t"
    and nb: "t ! PKT_ID \<noteq> BROADCAST_ID"
    and rd: "t ! PKT_INSTRUCTION = INST_READ \<longrightarrow> PKT_PARAMETER0 + 1 < length t"
    and ev: "rx_events p = ([], True) # rest"
  shows "txRxPacket p t =
           (let s1 = t[0 := 0xFF, 1 := 0xFF];
                s2 = s1[length t - 1 := NOT (checksum_loop s1 (length t))]
            in Inr ([], COMM_RX_TIMEOUT, 0,
                    p\<lparr>is_using := False, rx_buffer := [], tx_wire := tx_wire p @ s2,
                      wr_results := ws, rx_events := rest\<rparr>))"
proof -
  define s1 where "s1 = t[0 := 0xFF, 1 := 0xFF]"
  define s2 where "s2 = s1[length t - 1 := NOT (checksum_loop s1 (length t))]"
  define p1 where "p1 = p\<lparr>is_using := True, rx_buffer := [], tx_wire := tx_wire p @ s2,
                          wr_results := ws\<rparr>"
  have tx: "txPacket p t = Inr (COMM_SUCCESS, p1, s2)"
    using txPacket_ok[OF free fd wr lt mx] by (simp add: Let_def s1_def s2_def p1_def)
  have ls2: "length s2 = length t" by (simp add: s2_def s1_def)
  have id2: "s2 ! PKT_ID = t ! PKT_ID" and in2: "s2 ! PKT_INSTRUCTION = t ! PKT_INSTRUCTION"
    using l6 by (simp_all add: s2_def s1_def pkt_defs)
  have rp: "readPort (p1\<lparr>rx_buffer := rx_buffer p1 @ []\<rparr>) (6 - length ([] :: u8 list)) = ([], p1)"
    using fd by (simp add: readPort_def p1_def)
  have st: "rxStep ([], True) p1 [] 6 = Break [] COMM_RX_TIMEOUT p1"
    using rxStep_short[OF rp, of True] by simp
  have rx: "rxPacket p1 = Inr ([], COMM_RX_TIMEOUT, p1\<lparr>rx_events := rest, is_using := False\<rparr>)"
    by (simp add: rxPacket_def p1_def ev st[unfolded p1_def])
  have ru: "rxUntil p1 (t ! PKT_ID) = Inr ([], COMM_RX_TIMEOUT, p1\<lparr>rx_events := rest, is_using := False\<rparr>)"
    by (subst rxUntil.simps) (simp add: rx comm_defs)
  have g1: "\<not> length s2 \<le> PKT_INSTRUCTION" using l6 ls2 by (simp add: PKT_INSTRUCTION_def)
  have g2: "\<not> (s2 ! PKT_INSTRUCTION = INST_READ \<and> length s2 \<le> PKT_PARAMETER0 + 1)"
    using rd in2 ls2 by auto
  have "txRxPacket p t = Inr ([], COMM_RX_TIMEOUT, 0, p1\<lparr>rx_events := rest, is_using := False\<rparr>)"
    unfolding txRxPacket_def tx
    using nb g1 g2 by (simp add: id2 ru comm_defs)
  thus ?thesis
    unfolding Let_def s1_def[symmetric] s2_def[symmetric] by (simp add: p1_def)
qed

text \<open>
  The status packet of a device that has nothing to return, and the one that returns
  two bytes: header, identifier, length, error byte, data, checksum.
\<close>

lemma valid_status_ack:
  assumes "unat sts_id \<le> 0xFD" and "unat e \<le> 0x7F"
  shows "valid_status_packet [0xFF, 0xFF, sts_id, 2, e, NOT (sts_id + 2 + e)]"
  using assms by (simp add: valid_status_packet_def pkt_defs RXPACKET_MAX_LEN_def ac_simps)

lemma valid_status_data2:
  assumes "unat sts_id \<le> 0xFD" and "unat e \<le> 0x7F"
  shows "valid_status_packet [0xFF, 0xFF, sts_id, 4, e, lo, hi, NOT (sts_id + 4 + e + lo + hi)]"
proof -
  have s: "sum_list [sts_id, 4, e, lo, hi] = sts_id + 4 + e + lo + hi"
    by (simp add: ac_simps)
  show ?thesis
    unfolding valid_status_packet_def pkt_defs RXPACKET_MAX_LEN_def
    using assms by (simp add: s[symmetric] del: sum_list.Cons)
qed

lemma not_broadcast: "unat sts_id \<le> 0xFD \<Longrightarrow> \<not> sts_id \<ge> BROADCAST_ID \<and> sts_id \<noteq> BROADCAST_ID"
  by (auto simp: BROADCAST_ID_def word_le_nat_alt)

section \<open>Ping\<close>

lemma ping_txpacket:
  "(replicate 6 0)[PKT_ID := sts_id, PKT_LENGTH := 2, PKT_INSTRUCTION := INST_PING]
     = [0, 0, sts_id, 2, INST_PING, 0 :: u8]"
  by (simp add: pkt_defs eval_nat_numeral)

lemma read_txpacket:
  "(replicate 8 0)[PKT_ID := sts_id, PKT_LENGTH := 4, PKT_INSTRUCTION := INST_READ,
                   PKT_PARAMETER0 + 0 := address, PKT_PARAMETER0 + 1 := len]
     = [0, 0, sts_id, 4, INST_READ, address, len, 0 :: u8]"
  by (simp add: pkt_defs eval_nat_numeral)

text \<open>\<^verbatim>\<open>ping\<close> is two exchanges: a PING, then a READ of two bytes at address 3.\<close>

lemma ping_exchanges:
  "ping p sts_end sts_id =
     (if sts_id \<ge> BROADCAST_ID then Inr (0, COMM_NOT_AVAILABLE, 0, p)
      else case txRxPacket p [0, 0, sts_id, 2, INST_PING, 0] of
             Inl f \<Rightarrow> Inl f
           | Inr (rx1, comm1, err1, p1) \<Rightarrow>
               if comm1 \<noteq> COMM_SUCCESS then Inr (0, comm1, err1, p1)
               else case txRxPacket p1 [0, 0, sts_id, 4, INST_READ, 3, 2, 0] of
                      Inl f \<Rightarrow> Inl f
                    | Inr (rx2, comm2, err2, p2) \<Rightarrow>
                        if comm2 = COMM_SUCCESS \<and> 7 \<le> length rx2
                        then Inr (makeWord sts_end (rx2 ! 5) (rx2 ! 6), comm2, rx2 ! PKT_ERROR, p2)
                        else Inr (0, comm2, err2, p2))"
  unfolding ping_def readTxRx_def Let_def ping_txpacket read_txpacket
  by (auto simp: PKT_PARAMETER0_def split: sum.splits)

lemma makeWord_eq_0: "makeWord sts_end lo hi = 0 \<longleftrightarrow> lo = 0 \<and> hi = 0"
proof
  assume z: "makeWord sts_end lo hi = 0"
  have b: "\<not> bit (makeWord sts_end lo hi) n" for n by (simp add: z)
  have "\<not> bit lo n \<and> \<not> bit hi n" for n
  proof (cases "n < 8")
    case True
    thus ?thesis using b[of n] b[of "n + 8"]
      unfolding makeWord_def ff16 by (auto simp: bit_simps split: if_splits)
  next
    case False
    thus ?thesis by (auto dest: bit_imp_le_length)
  qed
  thus "lo = 0 \<and> hi = 0" by (auto intro: bit_word_eqI)
next
  assume "lo = 0 \<and> hi = 0"
  thus "makeWord sts_end lo hi = 0" by (simp add: makeWord_def)
qed

text \<open>
  A device that answers both requests: \<^verbatim>\<open>ping\<close> returns the model number made of the
  two data bytes of the second reply, and the error byte of that second reply. The
  error byte of the reply to the PING itself is dropped.
\<close>

lemma ping_device:
  assumes free: "\<not> is_using p" and fd: "fd_open p" and wr: "wr_results p = 6 # 8 # ws"
    and id: "unat sts_id \<le> 0xFD" and e1: "unat e1 \<le> 0x7F" and e2: "unat e2 \<le> 0x7F"
    and ev: "rx_events p =
              ([0xFF, 0xFF, sts_id, 2, e1, NOT (sts_id + 2 + e1)], t1)
              # ([0xFF, 0xFF, sts_id, 4, e2, lo, hi, NOT (sts_id + 4 + e2 + lo + hi)], t2)
              # (a, t3) # rest"
  shows "ping p sts_end sts_id =
           Inr (makeWord sts_end lo hi, COMM_SUCCESS, e2,
                p\<lparr>is_using := False, rx_buffer := a,
                  tx_wire := tx_wire p @ [0xFF, 0xFF, sts_id, 2, 1, NOT (sts_id + 2 + 1)]
                               @ [0xFF, 0xFF, sts_id, 4, 2, 3, 2, NOT (sts_id + 4 + 2 + 3 + 2)],
                  wr_results := ws, rx_events := rest\<rparr>)"
proof -
  let ?r1 = "[0xFF, 0xFF, sts_id, 2, e1, NOT (sts_id + 2 + e1)]"
  let ?r2 = "[0xFF, 0xFF, sts_id, 4, e2, lo, hi, NOT (sts_id + 4 + e2 + lo + hi)]"
  let ?t1 = "[0, 0, sts_id, 2, INST_PING, 0 :: u8]"
  let ?t2 = "[0, 0, sts_id, 4, INST_READ, 3, 2, 0 :: u8]"
  note nb = not_broadcast[OF id]
  note v1 = valid_status_ack[OF id e1]
  note v2 = valid_status_data2[OF id e2, of lo hi]
  define p1 where "p1 = p\<lparr>is_using := False, rx_buffer := [],
      tx_wire := tx_wire p @ [0xFF, 0xFF, sts_id, 2, 1, NOT (sts_id + 2 + 1)],
      wr_results := 8 # ws, rx_events := (?r2, t2) # (a, t3) # rest\<rparr>"
  have c1: "checksum_loop [0xFF, 0xFF, sts_id, 2, 1, 0] 6 = sts_id + 2 + 1"
    by (simp add: checksum_loop_slice ac_simps)
  have c2: "checksum_loop [0xFF, 0xFF, sts_id, 4, 2, 3, 2, 0] 8 = sts_id + 4 + 2 + 3 + 2"
    by (simp add: checksum_loop_slice ac_simps)
  have n6: "Suc (Suc (Suc (Suc (Suc (Suc 0))))) = 6"
    and n8: "Suc (Suc (Suc (Suc (Suc (Suc (Suc (Suc 0))))))) = 8" by simp_all
  note c1 = c1 c1[folded n6]
  note c2 = c2 c2[folded n8]
  have x1: "txRxPacket p ?t1 = Inr (?r1, COMM_SUCCESS, e1, p1)"
    using txRxPacket_reply[of p ?t1 "8 # ws" ?r1 t1 "(?r2, t2) # (a, t3) # rest"]
      free fd wr nb v1 ev c1
    by (simp add: pkt_defs TXPACKET_MAX_LEN_def INST_PING_def INST_READ_def p1_def)
  have x2: "txRxPacket p1 ?t2 =
      Inr (?r2, COMM_SUCCESS, e2,
           p\<lparr>is_using := False, rx_buffer := a,
             tx_wire := tx_wire p @ [0xFF, 0xFF, sts_id, 2, 1, NOT (sts_id + 2 + 1)]
                          @ [0xFF, 0xFF, sts_id, 4, 2, 3, 2, NOT (sts_id + 4 + 2 + 3 + 2)],
             wr_results := ws, rx_events := rest\<rparr>)"
    using txRxPacket_reply[of p1 ?t2 ws ?r2 t2 "(a, t3) # rest"] fd nb v2 c2
    by (simp add: pkt_defs TXPACKET_MAX_LEN_def INST_READ_def p1_def)
  show ?thesis
    unfolding ping_exchanges
    using nb by (simp add: x1 x2 PKT_ERROR_def)
qed

text \<open>No answer to the PING before the deadline: \<^verbatim>\<open>ping\<close> stops after the first exchange.\<close>

lemma ping_silent:
  assumes free: "\<not> is_using p" and fd: "fd_open p" and wr: "wr_results p = 6 # ws"
    and id: "unat sts_id \<le> 0xFD" and ev: "rx_events p = ([], True) # rest"
  shows "ping p sts_end sts_id =
           Inr (0, COMM_RX_TIMEOUT, 0,
                p\<lparr>is_using := False, rx_buffer := [],
                  tx_wire := tx_wire p @ [0xFF, 0xFF, sts_id, 2, 1, NOT (sts_id + 2 + 1)],
                  wr_results := ws, rx_events := rest\<rparr>)"
proof -
  let ?t1 = "[0, 0, sts_id, 2, INST_PING, 0 :: u8]"
  note nb = not_broadcast[OF id]
  have c1: "checksum_loop [0xFF, 0xFF, sts_id, 2, 1, 0] 6 = sts_id + 2 + 1"
    by (simp add: checksum_loop_slice ac_simps)
  have n6: "Suc (Suc (Suc (Suc (Suc (Suc 0))))) = 6" by simp
  note c1 = c1 c1[folded n6]
  have x1: "txRxPacket p ?t1 = Inr ([], COMM_RX_TIMEOUT, 0,
                p\<lparr>is_using := False, rx_buffer := [],
                  tx_wire := tx_wire p @ [0xFF, 0xFF, sts_id, 2, 1, NOT (sts_id + 2 + 1)],
                  wr_results := ws, rx_events := rest\<rparr>)"
    using txRxPacket_silent[of p ?t1 ws rest] free fd wr nb ev c1
    by (simp add: pkt_defs TXPACKET_MAX_LEN_def INST_PING_def INST_READ_def)
  show ?thesis
    unfolding ping_exchanges
    using nb by (simp add: x1 comm_defs)
qed

text \<open>
  C10. \<^verbatim>\<open>pingServo\<close> answers true exactly when the communication result of \<^verbatim>\<open>ping\<close>
  is success, the error byte \<^verbatim>\<open>ping\<close> returns is 0 and the model number read back is
  not 0. On the line, for a device with an identifier up to 253 that answers the PING
  (with any error byte \<open>e1\<close>) and then the READ of the model register with error byte
  \<open>e2\<close> and data bytes \<open>lo\<close>, \<open>hi\<close>: \<^verbatim>\<open>ping\<close> returns that model number with success and
  \<open>e2\<close>, and \<^verbatim>\<open>pingServo\<close> answers true exactly when \<open>e2\<close> is 0 and the two data bytes
  are not both 0; so a device whose model register reads 0 is reported absent although
  both exchanges succeeded. The error byte is the one of the READ reply; the one of the
  PING reply plays no part. When nothing answers the PING before the deadline, and for
  the identifiers 254 and 255, which \<^verbatim>\<open>ping\<close> refuses without sending, the answer is
  false.
\<close>

theorem pingServo_iff:
  "pingServo p sts_end sts_id =
     (case ping p sts_end sts_id of
        Inl f \<Rightarrow> Inl f
      | Inr (model, comm, error, p1) \<Rightarrow> Inr (comm = COMM_SUCCESS \<and> error = 0 \<and> model \<noteq> 0, p1))
   \<and> (\<not> is_using p \<and> fd_open p \<and> unat sts_id \<le> 0xFD \<and> unat e1 \<le> 0x7F \<and> unat e2 \<le> 0x7F
        \<and> wr_results p = 6 # 8 # ws
        \<and> rx_events p =
              ([0xFF, 0xFF, sts_id, 2, e1, NOT (sts_id + 2 + e1)], t1)
              # ([0xFF, 0xFF, sts_id, 4, e2, lo, hi, NOT (sts_id + 4 + e2 + lo + hi)], t2)
              # (a, t3) # rest
      \<longrightarrow> ping p sts_end sts_id =
            Inr (makeWord sts_end lo hi, COMM_SUCCESS, e2,
                 p\<lparr>is_using := False, rx_buffer := a,
                   tx_wire := tx_wire p @ [0xFF, 0xFF, sts_id, 2, 1, NOT (sts_id + 2 + 1)]
                                @ [0xFF, 0xFF, sts_id, 4, 2, 3, 2, NOT (sts_id + 4 + 2 + 3 + 2)],
                   wr_results := ws, rx_events := rest\<rparr>)
          \<and> pingServo p sts_end sts_id =
            Inr (e2 = 0 \<and> (lo \<noteq> 0 \<or> hi \<noteq> 0),
                 p\<lparr>is_using := False, rx_buffer := a,
                   tx_wire := tx_wire p @ [0xFF, 0xFF, sts_id, 2, 1, NOT (sts_id + 2 + 1)]
                                @ [0xFF, 0xFF, sts_id, 4, 2, 3, 2, NOT (sts_id + 4 + 2 + 3 + 2)],
                   wr_results := ws, rx_events := rest\<rparr>))
   \<and> (\<not> is_using p \<and> fd_open p \<and> unat sts_id \<le> 0xFD \<and> wr_results p = 6 # ws
        \<and> rx_events p = ([], True) # rest
      \<longrightarrow> pingServo p sts_end sts_id =
            Inr (False,
                 p\<lparr>is_using := False, rx_buffer := [],
                   tx_wire := tx_wire p @ [0xFF, 0xFF, sts_id, 2, 1, NOT (sts_id + 2 + 1)],
                   wr_results := ws, rx_events := rest\<rparr>))
   \<and> (sts_id \<ge> BROADCAST_ID \<longrightarrow> pingServo p sts_end sts_id = Inr (False, p))"
proof (intro conjI impI)
  show "pingServo p sts_end sts_id =
     (case ping p sts_end sts_id of
        Inl f \<Rightarrow> Inl f
      | Inr (model, comm, error, p1) \<Rightarrow> Inr (comm = COMM_SUCCESS \<and> error = 0 \<and> model \<noteq> 0, p1))"
    by (auto simp: pingServo_def split: sum.splits)
next
  assume h: "\<not> is_using p \<and> fd_open p \<and> unat sts_id \<le> 0xFD \<and> unat e1 \<le> 0x7F \<and> unat e2 \<le> 0x7F
        \<and> wr_results p = 6 # 8 # ws
        \<and> rx_events p =
              ([0xFF, 0xFF, sts_id, 2, e1, NOT (sts_id + 2 + e1)], t1)
              # ([0xFF, 0xFF, sts_id, 4, e2, lo, hi, NOT (sts_id + 4 + e2 + lo + hi)], t2)
              # (a, t3) # rest"
  hence d: "ping p sts_end sts_id =
            Inr (makeWord sts_end lo hi, COMM_SUCCESS, e2,
                 p\<lparr>is_using := False, rx_buffer := a,
                   tx_wire := tx_wire p @ [0xFF, 0xFF, sts_id, 2, 1, NOT (sts_id + 2 + 1)]
                                @ [0xFF, 0xFF, sts_id, 4, 2, 3, 2, NOT (sts_id + 4 + 2 + 3 + 2)],
                   wr_results := ws, rx_events := rest\<rparr>)"
    by (intro ping_device) simp_all
  show "ping p sts_end sts_id =
            Inr (makeWord sts_end lo hi, COMM_SUCCESS, e2,
                 p\<lparr>is_using := False, rx_buffer := a,
                   tx_wire := tx_wire p @ [0xFF, 0xFF, sts_id, 2, 1, NOT (sts_id + 2 + 1)]
                                @ [0xFF, 0xFF, sts_id, 4, 2, 3, 2, NOT (sts_id + 4 + 2 + 3 + 2)],
                   wr_results := ws, rx_events := rest\<rparr>)"
    by (rule d)
  show "pingServo p sts_end sts_id =
            Inr (e2 = 0 \<and> (lo \<noteq> 0 \<or> hi \<noteq> 0),
                 p\<lparr>is_using := False, rx_buffer := a,
                   tx_wire := tx_wire p @ [0xFF, 0xFF, sts_id, 2, 1, NOT (sts_id + 2 + 1)]
                                @ [0xFF, 0xFF, sts_id, 4, 2, 3, 2, NOT (sts_id + 4 + 2 + 3 + 2)],
                   wr_results := ws, rx_events := rest\<rparr>)"
    unfolding pingServo_def d by (auto simp: makeWord_eq_0)
next
  assume h: "\<not> is_using p \<and> fd_open p \<and> unat sts_id \<le> 0xFD \<and> wr_results p = 6 # ws
        \<and> rx_events p = ([], True) # rest"
  hence "ping p sts_end sts_id =
           Inr (0, COMM_RX_TIMEOUT, 0,
                p\<lparr>is_using := False, rx_buffer := [],
                  tx_wire := tx_wire p @ [0xFF, 0xFF, sts_id, 2, 1, NOT (sts_id + 2 + 1)],
                  wr_results := ws, rx_events := rest\<rparr>)"
    by (intro ping_silent) simp_all
  thus "pingServo p sts_end sts_id =
            Inr (False,
                 p\<lparr>is_using := False, rx_buffer := [],
                   tx_wire := tx_wire p @ [0xFF, 0xFF, sts_id, 2, 1, NOT (sts_id + 2 + 1)],
                   wr_results := ws, rx_events := rest\<rparr>)"
    by (simp add: pingServo_def)
next
  assume "sts_id \<ge> BROADCAST_ID"
  thus "pingServo p sts_end sts_id = Inr (False, p)"
    by (simp add: pingServo_def ping_def comm_defs)
qed

theorem pingServo_iff_witness:
  "pingServo \<lparr>fd_open = True, is_using = False, rx_buffer = [], tx_wire = [],
         wr_results = [6, 8],
         rx_events = [([0xFF, 0xFF, 1, 2, 0, 0xFC], False),
                      ([0xFF, 0xFF, 1, 4, 0, 9, 3, 0xEE], False),
                      ([], False)]\<rparr> 0 1
     = Inr (True,
            \<lparr>fd_open = True, is_using = False, rx_buffer = [],
         tx_wire = [0xFF, 0xFF, 1, 2, 1, 0xFB, 0xFF, 0xFF, 1, 4, 2, 3, 2, 0xF3],
         wr_results = [], rx_events = []\<rparr>)
   \<and> pingServo \<lparr>fd_open = True, is_using = False, rx_buffer = [], tx_wire = [],
         wr_results = [6, 8],
         rx_events = [([0xFF, 0xFF, 1, 2, 0, 0xFC], False),
                      ([0xFF, 0xFF, 1, 4, 0, 0, 0, 0xFA], False),
                      ([], False)]\<rparr> 0 1
     = Inr (False,
            \<lparr>fd_open = True, is_using = False, rx_buffer = [],
         tx_wire = [0xFF, 0xFF, 1, 2, 1, 0xFB, 0xFF, 0xFF, 1, 4, 2, 3, 2, 0xF3],
         wr_results = [], rx_events = []\<rparr>)
   \<and> pingServo \<lparr>fd_open = True, is_using = False, rx_buffer = [], tx_wire = [],
         wr_results = [6, 8],
         rx_events = [([0xFF, 0xFF, 1, 2, 0x20, 0xDC], False),
                      ([0xFF, 0xFF, 1, 4, 0, 9, 3, 0xEE], False),
                      ([], False)]\<rparr> 0 1
     = Inr (True,
            \<lparr>fd_open = True, is_using = False, rx_buffer = [],
         tx_wire = [0xFF, 0xFF, 1, 2, 1, 0xFB, 0xFF, 0xFF, 1, 4, 2, 3, 2, 0xF3],
         wr_results = [], rx_events = []\<rparr>)
   \<and> pingServo \<lparr>fd_open = True, is_using = False, rx_buffer = [], tx_wire = [],
         wr_results = [6, 8],
         rx_events = [([0xFF, 0xFF, 1, 2, 0, 0xFC], False),
                      ([0xFF, 0xFF, 1, 4, 0x20, 9, 3, 0xCE], False),
                      ([], False)]\<rparr> 0 1
     = Inr (False,
            \<lparr>fd_open = True, is_using = False, rx_buffer = [],
         tx_wire = [0xFF, 0xFF, 1, 2, 1, 0xFB, 0xFF, 0xFF, 1, 4, 2, 3, 2, 0xF3],
         wr_results = [], rx_events = []\<rparr>)
   \<and> pingServo \<lparr>fd_open = True, is_using = False, rx_buffer = [], tx_wire = [],
         wr_results = [6], rx_events = [([], True)]\<rparr> 0 1
     = Inr (False,
            \<lparr>fd_open = True, is_using = False, rx_buffer = [],
         tx_wire = [0xFF, 0xFF, 1, 2, 1, 0xFB], wr_results = [], rx_events = []\<rparr>)
   \<and> pingServo \<lparr>fd_open = True, is_using = False, rx_buffer = [], tx_wire = [],
         wr_results = [], rx_events = []\<rparr> 0 0xFE
     = Inr (False, \<lparr>fd_open = True, is_using = False, rx_buffer = [], tx_wire = [],
         wr_results = [], rx_events = []\<rparr>)"
proof -
  let ?p = "\<lambda>r1 r2. \<lparr>fd_open = True, is_using = False, rx_buffer = [], tx_wire = [],
         wr_results = [6, 8],
         rx_events = [(r1, False), (r2, False), ([], False)]\<rparr>"
  note present = pingServo_iff[where p = "?p [0xFF, 0xFF, 1, 2, 0, 0xFC] [0xFF, 0xFF, 1, 4, 0, 9, 3, 0xEE]"
      and sts_end = 0 and sts_id = 1 and ?e1.0 = 0 and ?e2.0 = 0 and lo = 9 and hi = 3
      and ws = "[]" and ?t1.0 = False and ?t2.0 = False and a = "[]" and ?t3.0 = False and rest = "[]"]
  note absent = pingServo_iff[where p = "?p [0xFF, 0xFF, 1, 2, 0, 0xFC] [0xFF, 0xFF, 1, 4, 0, 0, 0, 0xFA]"
      and sts_end = 0 and sts_id = 1 and ?e1.0 = 0 and ?e2.0 = 0 and lo = 0 and hi = 0
      and ws = "[]" and ?t1.0 = False and ?t2.0 = False and a = "[]" and ?t3.0 = False and rest = "[]"]
  note ping_error = pingServo_iff[where p = "?p [0xFF, 0xFF, 1, 2, 0x20, 0xDC] [0xFF, 0xFF, 1, 4, 0, 9, 3, 0xEE]"
      and sts_end = 0 and sts_id = 1 and ?e1.0 = "0x20" and ?e2.0 = 0 and lo = 9 and hi = 3
      and ws = "[]" and ?t1.0 = False and ?t2.0 = False and a = "[]" and ?t3.0 = False and rest = "[]"]
  note read_error = pingServo_iff[where p = "?p [0xFF, 0xFF, 1, 2, 0, 0xFC] [0xFF, 0xFF, 1, 4, 0x20, 9, 3, 0xCE]"
      and sts_end = 0 and sts_id = 1 and ?e1.0 = 0 and ?e2.0 = "0x20" and lo = 9 and hi = 3
      and ws = "[]" and ?t1.0 = False and ?t2.0 = False and a = "[]" and ?t3.0 = False and rest = "[]"]
  note silent = pingServo_iff[where p = "\<lparr>fd_open = True, is_using = False, rx_buffer = [], tx_wire = [],
         wr_results = [6], rx_events = [([], True)]\<rparr>"
      and sts_end = 0 and sts_id = 1 and ws = "[]" and rest = "[]"]
  note broadcast = pingServo_iff[where p = "\<lparr>fd_open = True, is_using = False, rx_buffer = [], tx_wire = [],
         wr_results = [], rx_events = []\<rparr>" and sts_end = 0 and sts_id = "0xFE"]
  have n: "(- 5 :: u8) = 251" "(- 13 :: u8) = 243" by simp_all
  show ?thesis
    using present[THEN conjunct2, THEN conjunct1] absent[THEN conjunct2, THEN conjunct1]
      ping_error[THEN conjunct2, THEN conjunct1] read_error[THEN conjunct2, THEN conjunct1]
      silent[THEN conjunct2, THEN conjunct2, THEN conjunct1]
      broadcast[THEN conjunct2, THEN conjunct2, THEN conjunct2]
    by (simp add: BROADCAST_ID_def n)
qed

section \<open>Clamping of correction and speed on the line\<close>
















end
